theory Spec2Isabelle
  imports Main "HOL-Library.AList" "HOL-Library.Multiset"
begin

section \<open>Values exchanged with the sink\<close>

text \<open>
  The payloads of \<^verbatim>\<open>trackingService.ts\<close> are JavaScript object literals. A value is
  a string, a number, a boolean, \<^verbatim>\<open>null\<close>, or the ISO rendering of a clock reading
  (\<^verbatim>\<open>new Date().toISOString()\<close>, kept as the reading itself); an object is the list
  of its fields in the order the literal writes them.
\<close>

datatype jsval = JNull | JStr string | JNum nat | JBool bool | JTime nat

type_synonym obj = "(string \<times> jsval) list"

text \<open>\<^verbatim>\<open>string | null\<close> as a field value.\<close>

definition nullable :: "string option \<Rightarrow> jsval" where
  "nullable u = (case u of None \<Rightarrow> JNull | Some n \<Rightarrow> JStr n)"

datatype event_type = View | Call | Whatsapp | Share

fun event_type_str :: "event_type \<Rightarrow> string" where
  "event_type_str View = ''view''"
| "event_type_str Call = ''call''"
| "event_type_str Whatsapp = ''whatsapp''"
| "event_type_str Share = ''share''"

text \<open>An entry of \<^verbatim>\<open>eventQueue\<close>: the object \<^verbatim>\<open>{ table, data }\<close>.\<close>

datatype queued = Queued (table: string) (data: obj)

text \<open>
  The calls the module makes on the analytics client, and the beacon of the teardown
  listener. Each is recorded in the order it is issued.
\<close>

datatype sink_call =
    Insert string "obj list"
  | Upsert string obj string
  | Select string string string
  | Update string obj string string
  | Beacon string obj

text \<open>
  What the sink returns in a field of a stored row: a JSON scalar (the columns of
  \<^verbatim>\<open>user_tracking\<close> hold no arrays or objects). A number arrives parsed into a double;
  the naturals stand for the non-negative integers a double holds, which below \<open>2 ^ 53\<close>
  is every one of them.
\<close>

datatype json = JsonNull | JsonStr string | JsonNum nat | JsonBool bool

type_synonym row = "(string \<times> json) list"

text \<open>
  What the client resolves an awaited call to: \<^verbatim>\<open>{ data, error }\<close>, the error given
  by its \<^verbatim>\<open>code\<close>, the data a stored row or \<^verbatim>\<open>null\<close>.
\<close>

datatype response = Response (resp_error: "string option") (resp_data: "row option")

section \<open>The host: timers, suspended calls, storage\<close>

text \<open>
  A timer callback is either \<^verbatim>\<open>flushEvents\<close> (the only function given to
  \<^verbatim>\<open>setTimeout\<close>) or the closure of \<^verbatim>\<open>startLiveTracking\<close> given to
  \<^verbatim>\<open>setInterval\<close>, which holds the \<^verbatim>\<open>deviceId\<close> and \<^verbatim>\<open>userName\<close> of that call.
\<close>

datatype callback = FlushEvents | PingClosure string "string option"

datatype timer = Timer (timer_id: nat) (due: nat) (period: "nat option") (callback: callback)

text \<open>
  An \<^verbatim>\<open>async\<close> function runs up to its first \<^verbatim>\<open>await\<close> inside the caller's turn;
  what is left of it waits among the suspended calls until the host resumes it.
  One constructor per \<^verbatim>\<open>await\<close> of the module, holding the local variables the rest
  of the function reads.
\<close>

datatype task =
    FlushInteractions "queued list"
  | FlushVisits
  | PingUpsert "(string \<times> string option) option"
  | StartLive string "string option"
  | VisitSelect string string
  | VisitWrite string string string
  | InitUpdate

text \<open>
  The imports from \<^verbatim>\<open>./analyticsClient\<close> and the page are parameters:
  the enable flag, the client (absent, or present with its \<^verbatim>\<open>supabaseUrl\<close>), the
  outcomes of \<^verbatim>\<open>Math.random().toString(36).substr(2, 9)\<close> in call order, and the
  page's user agent, path and referrer.
\<close>

record config =
  isAnalyticsEnabled :: bool
  analyticsClient :: "string option"
  random :: "nat \<Rightarrow> string"
  userAgent :: string
  pathname :: string
  referrer :: string

text \<open>
  The module's variables (\<^verbatim>\<open>eventQueue\<close>, \<^verbatim>\<open>flushTimeout\<close>, \<^verbatim>\<open>pingInterval\<close>,
  \<^verbatim>\<open>lastActivity\<close>, \<^verbatim>\<open>isTabActive\<close>) followed by the host's state: the clock
  (\<^verbatim>\<open>Date.now()\<close>), \<^verbatim>\<open>localStorage\<close>, the live timers and the next handle, the
  suspended calls, the \<^verbatim>\<open>beforeunload\<close> closures registered by
  \<^verbatim>\<open>startLiveTracking\<close>, and the logs of sink calls and \<^verbatim>\<open>console.error\<close>.
\<close>

record state =
  eventQueue :: "queued list"
  flushTimeout :: "nat option"
  pingInterval :: "nat option"
  lastActivity :: nat
  isTabActive :: bool
  clock :: nat
  localStorage :: "(string \<times> string) list"
  randomCalls :: nat
  timers :: "timer list"
  nextTimerId :: nat
  pending :: "task list"
  unloadListeners :: "(string \<times> string option) list"
  sink :: "sink_call list"
  console :: "string list"

definition getItem :: "string \<Rightarrow> state \<Rightarrow> string option" where
  "getItem k s = map_of (localStorage s) k"

definition setItem :: "string \<Rightarrow> string \<Rightarrow> state \<Rightarrow> state" where
  "setItem k v s = s\<lparr>localStorage := AList.update k v (localStorage s)\<rparr>"

text \<open>
  Handles are positive and never reused, so a stored handle is truthy and
  \<^verbatim>\<open>if (handle)\<close> asks whether one was ever stored. Clearing a handle that is no longer
  live does nothing. \<^verbatim>\<open>setTimeout\<close> and \<^verbatim>\<open>setInterval\<close> draw from one pool.
\<close>

definition setTimeout :: "callback \<Rightarrow> nat \<Rightarrow> state \<Rightarrow> nat \<times> state" where
  "setTimeout cb delay s =
     (nextTimerId s,
      s\<lparr>timers := timers s @ [Timer (nextTimerId s) (clock s + delay) None cb],
        nextTimerId := Suc (nextTimerId s)\<rparr>)"

definition setInterval :: "callback \<Rightarrow> nat \<Rightarrow> state \<Rightarrow> nat \<times> state" where
  "setInterval cb delay s =
     (nextTimerId s,
      s\<lparr>timers := timers s @ [Timer (nextTimerId s) (clock s + delay) (Some delay) cb],
        nextTimerId := Suc (nextTimerId s)\<rparr>)"

definition clearTimeout :: "nat \<Rightarrow> state \<Rightarrow> state" where
  "clearTimeout h s = s\<lparr>timers := filter (\<lambda>t. timer_id t \<noteq> h) (timers s)\<rparr>"

definition clearInterval :: "nat \<Rightarrow> state \<Rightarrow> state" where
  "clearInterval h s = s\<lparr>timers := filter (\<lambda>t. timer_id t \<noteq> h) (timers s)\<rparr>"

definition sinkCall :: "sink_call \<Rightarrow> state \<Rightarrow> state" where
  "sinkCall c s = s\<lparr>sink := sink s @ [c]\<rparr>"

definition await :: "task \<Rightarrow> state \<Rightarrow> state" where
  "await k s = s\<lparr>pending := pending s @ [k]\<rparr>"

definition console_error :: "string \<Rightarrow> state \<Rightarrow> state" where
  "console_error msg s = s\<lparr>console := console s @ [msg]\<rparr>"

text \<open>\<^verbatim>\<open>if (error) console.error(msg, error)\<close> after an awaited call.\<close>

definition logError :: "string \<Rightarrow> response \<Rightarrow> state \<Rightarrow> state" where
  "logError msg r s = (case resp_error r of None \<Rightarrow> s | Some _ \<Rightarrow> console_error msg s)"

text \<open>
  Modelled from the spec: \<^verbatim>\<open>safeAnalyticsOperation\<close> is imported from
  \<^verbatim>\<open>./analyticsClient\<close>, which is not among the sources. The spec has delivery failures
  "caught at the point of the sink call, logged, and swallowed", never reaching the
  caller: the wrapper runs the operation it is given. No operation below throws, every
  one of them tests the client itself, and every caller modelled here has tested the
  enable flag before it reaches the wrapper.
\<close>

definition safeAnalyticsOperation :: "(state \<Rightarrow> state) \<Rightarrow> state \<Rightarrow> state" where
  "safeAnalyticsOperation operation s = operation s"

section \<open>Device and user identity\<close>

definition DEVICE_ID_KEY :: string where
  "DEVICE_ID_KEY = ''jawala_device_id''"

definition USER_NAME_KEY :: string where
  "USER_NAME_KEY = ''jawala_user_name''"

fun digits :: "nat \<Rightarrow> string" where
  "digits n =
     (if n < 10 then [char_of (48 + n)]
      else digits (n div 10) @ [char_of (48 + n mod 10)])"

declare digits.simps [simp del]

text \<open>\<^verbatim>\<open>!deviceId\<close> holds for \<^verbatim>\<open>null\<close> and for the empty string.\<close>

definition getDeviceId :: "config \<Rightarrow> state \<Rightarrow> string \<times> state" where
  "getDeviceId cfg s =
     (let deviceId = getItem DEVICE_ID_KEY s
      in if deviceId = None \<or> deviceId = Some []
         then (let fresh = ''device_'' @ digits (clock s) @ ''_'' @ random cfg (randomCalls s)
               in (fresh, setItem DEVICE_ID_KEY fresh (s\<lparr>randomCalls := Suc (randomCalls s)\<rparr>)))
         else (the deviceId, s))"

definition getUserName :: "state \<Rightarrow> string option" where
  "getUserName s = getItem USER_NAME_KEY s"

definition setUserName :: "string \<Rightarrow> state \<Rightarrow> state" where
  "setUserName name s = setItem USER_NAME_KEY name s"

section \<open>Event batching\<close>

definition FLUSH_INTERVAL :: nat where
  "FLUSH_INTERVAL = 5000"

definition MAX_QUEUE_SIZE :: nat where
  "MAX_QUEUE_SIZE = 10"

text \<open>
  The operation \<^verbatim>\<open>flushEvents\<close> hands to the wrapper. Both filters run before the
  first \<^verbatim>\<open>await\<close>; the visit logs wait in the suspended call while the first insert
  is in flight.
\<close>

definition flushVisitLogs :: "config \<Rightarrow> queued list \<Rightarrow> state \<Rightarrow> state" where
  "flushVisitLogs cfg visitLogs s =
     (if length visitLogs > 0 \<and> analyticsClient cfg \<noteq> None
      then await FlushVisits (sinkCall (Insert ''visit_logs'' (map data visitLogs)) s)
      else s)"

definition flushOperation :: "config \<Rightarrow> queued list \<Rightarrow> state \<Rightarrow> state" where
  "flushOperation cfg eventsToSend s =
     (let businessInteractions = filter (\<lambda>e. table e = ''business_interactions'') eventsToSend;
          visitLogs = filter (\<lambda>e. table e = ''visit_logs'') eventsToSend
      in if length businessInteractions > 0 \<and> analyticsClient cfg \<noteq> None
         then await (FlushInteractions visitLogs)
                (sinkCall (Insert ''business_interactions'' (map data businessInteractions)) s)
         else flushVisitLogs cfg visitLogs s)"

definition flushEvents :: "config \<Rightarrow> state \<Rightarrow> state" where
  "flushEvents cfg s =
     (if length (eventQueue s) = 0 \<or> \<not> isAnalyticsEnabled cfg then s
      else (let eventsToSend = eventQueue s;
                s1 = s\<lparr>eventQueue := []\<rparr>
            in safeAnalyticsOperation (flushOperation cfg eventsToSend) s1))"

definition scheduleFlush :: "state \<Rightarrow> state" where
  "scheduleFlush s =
     (let s1 = (case flushTimeout s of Some h \<Rightarrow> clearTimeout h s | None \<Rightarrow> s);
          (h, s2) = setTimeout FlushEvents FLUSH_INTERVAL s1
      in s2\<lparr>flushTimeout := Some h\<rparr>)"

definition queueEvent :: "config \<Rightarrow> string \<Rightarrow> obj \<Rightarrow> state \<Rightarrow> state" where
  "queueEvent cfg tbl dat s =
     (if \<not> isAnalyticsEnabled cfg then s
      else (let s1 = s\<lparr>eventQueue := eventQueue s @ [Queued tbl dat]\<rparr>
            in if length (eventQueue s1) \<ge> MAX_QUEUE_SIZE then flushEvents cfg s1
               else scheduleFlush s1))"

text \<open>The argument object is built, and the device id read, before \<^verbatim>\<open>queueEvent\<close> runs.\<close>

definition trackBusinessInteraction :: "config \<Rightarrow> event_type \<Rightarrow> string \<Rightarrow> state \<Rightarrow> state" where
  "trackBusinessInteraction cfg eventType businessId s =
     (let (deviceId, s1) = getDeviceId cfg s
      in queueEvent cfg ''business_interactions''
           [(''event_type'', JStr (event_type_str eventType)),
            (''business_id'', JStr businessId),
            (''device_id'', JStr deviceId),
            (''user_name'', nullable (getUserName s1)),
            (''created_at'', JTime (clock s1))] s1)"

section \<open>Live users: the ping\<close>

definition PING_INTERVAL :: nat where
  "PING_INTERVAL = 20000"

definition MIN_ACTIVITY_GAP :: int where
  "MIN_ACTIVITY_GAP = 10000"

text \<open>
  \<^verbatim>\<open>sendPing\<close> is awaited by \<^verbatim>\<open>startLiveTracking\<close> and called bare by the interval
  closure. The \<open>caller\<close> is the awaiting \<^verbatim>\<open>startLiveTracking\<close> with its two locals, if
  any: when the ping is skipped the caller still waits for the returned promise, and
  when the upsert is awaited the caller goes on after it.
\<close>

definition returnTo :: "(string \<times> string option) option \<Rightarrow> state \<Rightarrow> state" where
  "returnTo caller s =
     (case caller of None \<Rightarrow> s | Some (deviceId, userName) \<Rightarrow> await (StartLive deviceId userName) s)"

definition sendPing ::
  "config \<Rightarrow> string \<Rightarrow> string option \<Rightarrow> (string \<times> string option) option \<Rightarrow> state \<Rightarrow> state" where
  "sendPing cfg deviceId userName caller s =
     (if \<not> isTabActive s \<or> int (clock s) - int (lastActivity s) > MIN_ACTIVITY_GAP
         \<or> \<not> isAnalyticsEnabled cfg
      then returnTo caller s
      else safeAnalyticsOperation (\<lambda>s.
             if analyticsClient cfg = None then returnTo caller s
             else await (PingUpsert caller)
                    (sinkCall (Upsert ''live_users''
                       [(''device_id'', JStr deviceId),
                        (''user_name'', nullable userName),
                        (''is_active'', JBool True),
                        (''last_ping'', JTime (clock s))] ''device_id'') s)) s)"

definition startLiveTracking :: "config \<Rightarrow> state \<Rightarrow> state" where
  "startLiveTracking cfg s =
     (if \<not> isAnalyticsEnabled cfg then s
      else (let (deviceId, s1) = getDeviceId cfg s;
                userName = getUserName s1
            in sendPing cfg deviceId userName (Some (deviceId, userName)) s1))"

text \<open>The rest of \<^verbatim>\<open>startLiveTracking\<close>, after \<^verbatim>\<open>await sendPing(...)\<close>.\<close>

definition startLiveTracking_resume :: "string \<Rightarrow> string option \<Rightarrow> state \<Rightarrow> state" where
  "startLiveTracking_resume deviceId userName s =
     (let s1 = (case pingInterval s of Some h \<Rightarrow> clearInterval h s | None \<Rightarrow> s);
          (h, s2) = setInterval (PingClosure deviceId userName) PING_INTERVAL s1;
          s3 = s2\<lparr>pingInterval := Some h\<rparr>
      in s3\<lparr>unloadListeners := unloadListeners s3 @ [(deviceId, userName)]\<rparr>)"

text \<open>The \<^verbatim>\<open>beforeunload\<close> listener that \<^verbatim>\<open>startLiveTracking\<close> registers.\<close>

definition unloadClosure :: "config \<Rightarrow> string \<times> string option \<Rightarrow> state \<Rightarrow> state" where
  "unloadClosure cfg c s =
     (let s1 = (case pingInterval s of Some h \<Rightarrow> clearInterval h s | None \<Rightarrow> s)
      in if isAnalyticsEnabled cfg \<and> analyticsClient cfg \<noteq> None
         then sinkCall (Beacon (the (analyticsClient cfg) @ ''/rest/v1/live_users'')
                [(''device_id'', JStr (fst c)),
                 (''user_name'', nullable (snd c)),
                 (''is_active'', JBool False),
                 (''last_ping'', JTime (clock s1))]) s1
         else s1)"

section \<open>Visits\<close>

definition visitLog :: "config \<Rightarrow> string \<Rightarrow> string \<Rightarrow> state \<Rightarrow> obj" where
  "visitLog cfg deviceId userName s =
     [(''device_id'', JStr deviceId),
      (''user_name'', JStr userName),
      (''page_path'', JStr (pathname cfg)),
      (''referrer'', (if referrer cfg = [] then JNull else JStr (referrer cfg))),
      (''visited_at'', JTime (clock s))]"

definition trackUserVisit :: "config \<Rightarrow> string \<Rightarrow> state \<Rightarrow> state" where
  "trackUserVisit cfg userName s =
     (if \<not> isAnalyticsEnabled cfg then setUserName userName s
      else safeAnalyticsOperation (\<lambda>s.
             if analyticsClient cfg = None then s
             else (let (deviceId, s1) = getDeviceId cfg s
                   in await (VisitSelect userName deviceId)
                        (sinkCall (Select ''user_tracking'' ''device_id'' deviceId) s1))) s)"

text \<open>
  \<^verbatim>\<open>n + 1\<close> on the double that holds the integer \<open>n\<close>: exact below \<open>2 ^ 53\<close>; from there
  on the doubles are two apart and the sum, halfway between two of them, goes to the one
  with the even significand; from \<open>2 ^ 54\<close> on they are four or more apart and the sum
  rounds back to \<open>n\<close>.
\<close>

definition doublePlusOne :: "nat \<Rightarrow> nat" where
  "doublePlusOne n =
     (if n < 2 ^ 53 then n + 1
      else if n < 2 ^ 54 then (if even (n div 2) then n else n + 2)
      else n)"

text \<open>
  \<^verbatim>\<open>(existingUser.total_visits || 0) + 1\<close>. A missing field, \<^verbatim>\<open>null\<close>, \<^verbatim>\<open>0\<close>, the
  empty string and \<^verbatim>\<open>false\<close> are falsy and give way to \<^verbatim>\<open>0\<close>; \<^verbatim>\<open>true\<close> counts as
  1 under \<^verbatim>\<open>+\<close>; a non-empty string is not added to but followed by \<^verbatim>\<open>"1"\<close>.
\<close>

definition total_visits_plus_one :: "row \<Rightarrow> jsval" where
  "total_visits_plus_one existingUser =
     (case map_of existingUser ''total_visits'' of
        None \<Rightarrow> JNum 1
      | Some JsonNull \<Rightarrow> JNum 1
      | Some (JsonNum n) \<Rightarrow> JNum (doublePlusOne n)
      | Some (JsonBool b) \<Rightarrow> JNum (if b then 2 else 1)
      | Some (JsonStr str) \<Rightarrow> (if str = [] then JNum 1 else JStr (str @ ''1'')))"

text \<open>The rest of \<^verbatim>\<open>trackUserVisit\<close> after the awaited \<^verbatim>\<open>select\<close>.\<close>

definition trackUserVisit_selected :: "config \<Rightarrow> string \<Rightarrow> string \<Rightarrow> response \<Rightarrow> state \<Rightarrow> state" where
  "trackUserVisit_selected cfg userName deviceId r s =
     (let s1 = (if resp_error r \<noteq> None \<and> resp_error r \<noteq> Some ''PGRST116''
                then console_error ''Error fetching user:'' s else s)
      in case resp_data r of
           Some existingUser \<Rightarrow>
             await (VisitWrite ''Error updating user:'' userName deviceId)
               (sinkCall (Update ''user_tracking''
                  [(''user_name'', JStr userName),
                   (''last_visit_at'', JTime (clock s1)),
                   (''total_visits'', total_visits_plus_one existingUser)]
                  ''device_id'' deviceId) s1)
         | None \<Rightarrow>
             await (VisitWrite ''Error creating user:'' userName deviceId)
               (sinkCall (Insert ''user_tracking''
                  [[(''user_name'', JStr userName),
                    (''device_id'', JStr deviceId),
                    (''user_agent'', JStr (userAgent cfg)),
                    (''total_visits'', JNum 1)]]) s1))"

text \<open>The rest of \<^verbatim>\<open>trackUserVisit\<close> after the awaited \<^verbatim>\<open>update\<close> or \<^verbatim>\<open>insert\<close>.\<close>

definition trackUserVisit_written ::
  "config \<Rightarrow> string \<Rightarrow> string \<Rightarrow> string \<Rightarrow> response \<Rightarrow> state \<Rightarrow> state" where
  "trackUserVisit_written cfg msg userName deviceId r s =
     (let s1 = logError msg r s;
          s2 = queueEvent cfg ''visit_logs'' (visitLog cfg deviceId userName s1) s1;
          s3 = setUserName userName s2
      in startLiveTracking cfg s3)"

text \<open>\<^verbatim>\<open>if (userName)\<close> holds for a stored, non-empty name.\<close>

definition initializeTracking :: "config \<Rightarrow> state \<Rightarrow> state" where
  "initializeTracking cfg s =
     (if \<not> isAnalyticsEnabled cfg then s
      else safeAnalyticsOperation (\<lambda>s.
             if analyticsClient cfg = None then s
             else (let (deviceId, s1) = getDeviceId cfg s;
                       userName = getUserName s1
                   in if userName \<noteq> None \<and> userName \<noteq> Some []
                      then (let s2 = queueEvent cfg ''visit_logs''
                                       (visitLog cfg deviceId (the userName) s1) s1
                            in await InitUpdate
                                 (sinkCall (Update ''user_tracking''
                                    [(''last_visit_at'', JTime (clock s2))]
                                    ''device_id'' deviceId) s2))
                      else s1)) s)"

section \<open>The event loop\<close>

text \<open>Resuming a suspended call with the response its awaited call resolved to.\<close>

fun resumeTask :: "config \<Rightarrow> task \<Rightarrow> response \<Rightarrow> state \<Rightarrow> state" where
  "resumeTask cfg (FlushInteractions visitLogs) r s =
     flushVisitLogs cfg visitLogs (logError ''Error inserting business interactions:'' r s)"
| "resumeTask cfg FlushVisits r s = logError ''Error inserting visit logs:'' r s"
| "resumeTask cfg (PingUpsert caller) r s =
     (let s1 = logError ''Error sending ping:'' r s
      in case caller of None \<Rightarrow> s1
         | Some (deviceId, userName) \<Rightarrow> startLiveTracking_resume deviceId userName s1)"
| "resumeTask cfg (StartLive deviceId userName) r s = startLiveTracking_resume deviceId userName s"
| "resumeTask cfg (VisitSelect userName deviceId) r s =
     trackUserVisit_selected cfg userName deviceId r s"
| "resumeTask cfg (VisitWrite msg userName deviceId) r s =
     trackUserVisit_written cfg msg userName deviceId r s"
| "resumeTask cfg InitUpdate r s = startLiveTracking cfg s"

fun runCallback :: "config \<Rightarrow> callback \<Rightarrow> state \<Rightarrow> state" where
  "runCallback cfg FlushEvents s = flushEvents cfg s"
| "runCallback cfg (PingClosure deviceId userName) s = sendPing cfg deviceId userName None s"

text \<open>
  The host runs a timer no earlier than it is due. A timeout is spent when it fires; an
  interval is armed again one period later.
\<close>

definition fireTimer :: "config \<Rightarrow> nat \<Rightarrow> state \<Rightarrow> state" where
  "fireTimer cfg h s =
     (case find (\<lambda>t. timer_id t = h) (timers s) of
        None \<Rightarrow> s
      | Some t \<Rightarrow>
          if clock s < due t then s
          else (let s1 = (case period t of
                            None \<Rightarrow> s\<lparr>timers := filter (\<lambda>x. timer_id x \<noteq> h) (timers s)\<rparr>
                          | Some p \<Rightarrow>
                              s\<lparr>timers := map (\<lambda>x. if timer_id x = h
                                                    then Timer h (clock s + p) (Some p) (callback x)
                                                    else x) (timers s)\<rparr>)
                in runCallback cfg (callback t) s1))"

text \<open>
  One turn of the event loop: a call of an exported function, the passing of time, a
  timer firing, an awaited call resolving, one of the listeners of the module
  (\<^verbatim>\<open>mousedown\<close>, \<^verbatim>\<open>keydown\<close>, \<^verbatim>\<open>scroll\<close>, \<^verbatim>\<open>touchstart\<close>; \<^verbatim>\<open>visibilitychange\<close> with
  \<^verbatim>\<open>document.hidden\<close>), or \<^verbatim>\<open>beforeunload\<close>, whose listeners run in the order they were
  registered: the module's own \<^verbatim>\<open>flushEvents\<close> first.
\<close>

datatype event =
    TrackBusinessInteraction event_type string
  | TrackUserVisit string
  | InitializeTracking
  | StartLiveTracking
  | SetUserName string
  | Elapse nat
  | FireTimer nat
  | Resume nat response
  | Activity
  | VisibilityChange bool
  | BeforeUnload

fun step :: "config \<Rightarrow> event \<Rightarrow> state \<Rightarrow> state" where
  "step cfg (TrackBusinessInteraction eventType businessId) s =
     trackBusinessInteraction cfg eventType businessId s"
| "step cfg (TrackUserVisit userName) s = trackUserVisit cfg userName s"
| "step cfg InitializeTracking s = initializeTracking cfg s"
| "step cfg StartLiveTracking s = startLiveTracking cfg s"
| "step cfg (SetUserName name) s = setUserName name s"
| "step cfg (Elapse dt) s = s\<lparr>clock := clock s + dt\<rparr>"
| "step cfg (FireTimer h) s = fireTimer cfg h s"
| "step cfg (Resume n r) s =
     (if n < length (pending s)
      then resumeTask cfg (pending s ! n) r
             (s\<lparr>pending := take n (pending s) @ drop (Suc n) (pending s)\<rparr>)
      else s)"
| "step cfg Activity s = s\<lparr>lastActivity := clock s\<rparr>"
| "step cfg (VisibilityChange hidden) s =
     (let s1 = s\<lparr>isTabActive := \<not> hidden\<rparr>
      in if isTabActive s1 then s1\<lparr>lastActivity := clock s1\<rparr> else s1)"
| "step cfg BeforeUnload s = fold (unloadClosure cfg) (unloadListeners s) (flushEvents cfg s)"

fun run :: "config \<Rightarrow> event list \<Rightarrow> state \<Rightarrow> state" where
  "run cfg [] s = s"
| "run cfg (e # es) s = run cfg es (step cfg e s)"

text \<open>
  The state when the module has loaded at time \<open>t0\<close> over the storage \<open>ls\<close> left by
  earlier sessions: empty queue, no handles, \<^verbatim>\<open>lastActivity = Date.now()\<close>,
  \<^verbatim>\<open>isTabActive = true\<close>.
\<close>

definition init :: "nat \<Rightarrow> (string \<times> string) list \<Rightarrow> state" where
  "init t0 ls =
     \<lparr>eventQueue = [], flushTimeout = None, pingInterval = None,
      lastActivity = t0, isTabActive = True, clock = t0, localStorage = ls,
      randomCalls = 0, timers = [], nextTimerId = 1, pending = [],
      unloadListeners = [], sink = [], console = []\<rparr>"

section \<open>Derived notions used in the statements\<close>

text \<open>A run of \<^verbatim>\<open>queueEvent\<close> calls, one per queued object, in order.\<close>

definition enqueueAll :: "config \<Rightarrow> queued list \<Rightarrow> state \<Rightarrow> state" where
  "enqueueAll cfg evs s = fold (\<lambda>e. queueEvent cfg (table e) (data e)) evs s"

text \<open>The bound the queue keeps between turns.\<close>

definition queue_inv :: "state \<Rightarrow> bool" where
  "queue_inv s = (length (eventQueue s) < MAX_QUEUE_SIZE)"

text \<open>
  The timers by what they run: the flush timeout, or a recurring ping closure.
\<close>

definition isFlushTimer :: "timer \<Rightarrow> bool" where
  "isFlushTimer t = (callback t = FlushEvents)"

definition isPingTimer :: "timer \<Rightarrow> bool" where
  "isPingTimer t = (callback t \<noteq> FlushEvents)"

text \<open>
  Handles are distinct and below the next one, every live flush timer is the one whose
  handle \<^verbatim>\<open>flushTimeout\<close> holds, and every live ping interval is the one whose handle
  \<^verbatim>\<open>pingInterval\<close> holds.
\<close>

definition timer_inv :: "state \<Rightarrow> bool" where
  "timer_inv s =
     (distinct (map timer_id (timers s))
      \<and> list_all (\<lambda>t. timer_id t < nextTimerId s
                     \<and> (callback t = FlushEvents \<longrightarrow> flushTimeout s = Some (timer_id t))
                     \<and> (callback t \<noteq> FlushEvents \<longrightarrow> pingInterval s = Some (timer_id t)))
          (timers s))"

text \<open>A configuration with analytics enabled and a client, for the worked examples.\<close>

definition cfg0 :: config where
  "cfg0 = \<lparr>isAnalyticsEnabled = True, analyticsClient = Some ''https://sink.example'',
           random = (\<lambda>_. ''k3j9x0q2z''), userAgent = ''ua'', pathname = ''/'', referrer = []\<rparr>"

text \<open>The same page with analytics switched off.\<close>

definition cfgOff :: config where
  "cfgOff = \<lparr>isAnalyticsEnabled = False, analyticsClient = None,
           random = (\<lambda>_. ''k3j9x0q2z''), userAgent = ''ua'', pathname = ''/'', referrer = []\<rparr>"

text \<open>Nine enqueues into the freshly loaded module: one short of the maximum.\<close>

definition nineQueued :: state where
  "nineQueued = enqueueAll cfg0 (replicate 9 (Queued ''visit_logs'' [])) (init 0 [])"

text \<open>
  Enqueues at times 0 and 1000, seen at time 2000; then with the third enqueue made at
  time 2000.
\<close>

definition burst2 :: state where
  "burst2 = step cfg0 (Elapse 1000)
              (queueEvent cfg0 ''business_interactions'' [(''event_type'', JStr ''call'')]
                (step cfg0 (Elapse 1000)
                  (queueEvent cfg0 ''business_interactions'' [(''event_type'', JStr ''view'')]
                    (init 0 []))))"

definition burst :: state where
  "burst = queueEvent cfg0 ''business_interactions'' [(''event_type'', JStr ''share'')] burst2"

text \<open>The loaded page with the tab hidden, after 10001 idle milliseconds, and after 10000.\<close>

definition hiddenTab :: state where
  "hiddenTab = step cfg0 (VisibilityChange True) (init 0 [])"

definition idleTab :: state where
  "idleTab = step cfg0 (Elapse 10001) (init 0 [])"

definition activeTab :: state where
  "activeTab = step cfg0 (Elapse 10000) (init 0 [])"

text \<open>An awaited call that resolves without error and without data.\<close>

definition ok :: response where
  "ok = Response None None"

text \<open>
  Two \<^verbatim>\<open>startLiveTracking\<close> calls in succession on a device that has its id, then the
  two initial pings resolving.
\<close>

definition twoCalls :: state where
  "twoCalls = run cfg0 [StartLiveTracking, StartLiveTracking, Resume 0 ok, Resume 0 ok]
                (init 0 [(''jawala_device_id'', ''d1'')])"

text \<open>The suspended rest of a \<^verbatim>\<open>startLiveTracking\<close> call holding \<open>deviceId\<close> and \<open>userName\<close>.\<close>

definition liveTask :: "string \<Rightarrow> string option \<Rightarrow> task \<Rightarrow> bool" where
  "liveTask deviceId userName k =
     (k = PingUpsert (Some (deviceId, userName)) \<or> k = StartLive deviceId userName)"

text \<open>
  A flush with traffic while its calls are in flight: the flush starts, \<open>evs1\<close> are
  enqueued, the first awaited insert resolves to \<open>r1\<close>, \<open>evs2\<close> are enqueued, the second
  awaited insert resolves to \<open>r2\<close>. The flush's suspended call sits right after those
  already suspended when it started.
\<close>

definition flushInFlight ::
  "config \<Rightarrow> queued list \<Rightarrow> response \<Rightarrow> queued list \<Rightarrow> response \<Rightarrow> state \<Rightarrow> state" where
  "flushInFlight cfg evs1 r1 evs2 r2 s =
     (let n = length (pending s);
          s1 = flushEvents cfg s;
          s2 = enqueueAll cfg evs1 s1;
          s3 = step cfg (Resume n r1) s2;
          s4 = enqueueAll cfg evs2 s3
      in step cfg (Resume n r2) s4)"

text \<open>The rows a sink call inserts.\<close>

fun inserted :: "sink_call \<Rightarrow> obj list" where
  "inserted (Insert tbl rows) = rows"
| "inserted _ = []"

text \<open>
  The spec's words for what a flush writes: "one grouped write per non-empty category",
  interactions first, each in queue order.
\<close>

definition groupedWrites :: "queued list \<Rightarrow> sink_call list" where
  "groupedWrites batch =
     (let interactions = filter (\<lambda>e. table e = ''business_interactions'') batch;
          visits = filter (\<lambda>e. table e = ''visit_logs'') batch
      in (if interactions = [] then [] else [Insert ''business_interactions'' (map data interactions)])
         @ (if visits = [] then [] else [Insert ''visit_logs'' (map data visits)]))"

text \<open>Every queued event is for one of the two tables the flush sends.\<close>

definition tables_inv :: "state \<Rightarrow> bool" where
  "tables_inv s =
     list_all (\<lambda>e. table e = ''business_interactions'' \<or> table e = ''visit_logs'') (eventQueue s)"

text \<open>Three interactions and two visits, interleaved, queued in the loaded module.\<close>

definition mixedBatch :: state where
  "mixedBatch = enqueueAll cfg0
     [Queued ''business_interactions'' [(''business_id'', JStr ''b1'')],
      Queued ''visit_logs'' [(''page_path'', JStr ''/a'')],
      Queued ''business_interactions'' [(''business_id'', JStr ''b2'')],
      Queued ''visit_logs'' [(''page_path'', JStr ''/b'')],
      Queued ''business_interactions'' [(''business_id'', JStr ''b3'')]] (init 0 [])"

text \<open>A write of the teardown listener.\<close>

fun isBeacon :: "sink_call \<Rightarrow> bool" where
  "isBeacon (Beacon url body) = True"
| "isBeacon _ = False"

text \<open>\<open>k\<close> calls of \<^verbatim>\<open>startLiveTracking\<close>, each run to its end before the next.\<close>

definition liveCalls :: "nat \<Rightarrow> response \<Rightarrow> event list" where
  "liveCalls k r = concat (replicate k [StartLiveTracking, Resume 0 r])"

text \<open>
  A device known as \<open>ann\<close> starts live tracking; the name \<open>bob\<close> is stored while the
  initial ping is in flight; the ping resolves. Then 20000 pass and the user is active.
\<close>

definition tracking :: state where
  "tracking = run cfg0 [StartLiveTracking, SetUserName ''bob'', Resume 0 ok]
                (init 0 [(''jawala_device_id'', ''d1''), (''jawala_user_name'', ''ann'')])"

definition tick :: state where
  "tick = run cfg0 [Elapse 20000, Activity] tracking"

text \<open>
  The suspended call a flush of \<open>batch\<close> leaves behind: the wait for the interactions insert,
  holding the visit logs, or else the wait for the visits insert, or nothing.
\<close>

definition flushTasks :: "queued list \<Rightarrow> task list" where
  "flushTasks batch =
     (let interactions = filter (\<lambda>e. table e = ''business_interactions'') batch;
          visits = filter (\<lambda>e. table e = ''visit_logs'') batch
      in if interactions \<noteq> [] then [FlushInteractions visits]
         else if visits \<noteq> [] then [FlushVisits] else [])"

text \<open>The payloads a suspended call still has to send.\<close>

fun captured :: "task \<Rightarrow> obj list" where
  "captured (FlushInteractions visitLogs) = map data visitLogs"
| "captured _ = []"

fun isFlushTask :: "task \<Rightarrow> bool" where
  "isFlushTask (FlushInteractions visitLogs) = True"
| "isFlushTask FlushVisits = True"
| "isFlushTask _ = False"

text \<open>
  Every payload the batcher has taken and not dropped: those queued, those held by a
  suspended flush, and those inserted.
\<close>

definition accounted :: "state \<Rightarrow> obj multiset" where
  "accounted s =
     mset (map data (eventQueue s))
     + mset (concat (map captured (pending s)))
     + mset (concat (map inserted (sink s)))"

text \<open>
  Twelve interactions enqueued while the flush of the mixed batch is in flight: ten of
  them start a flush of their own.
\<close>

definition busy :: state where
  "busy = enqueueAll cfg0
            (replicate 12 (Queued ''business_interactions'' [(''business_id'', JStr ''b9'')]))
            (flushEvents cfg0 mixedBatch)"

section \<open>Frames and invariants\<close>

lemma getDeviceId_frame [simp]:
  "eventQueue (snd (getDeviceId cfg s)) = eventQueue s"
  "flushTimeout (snd (getDeviceId cfg s)) = flushTimeout s"
  "pingInterval (snd (getDeviceId cfg s)) = pingInterval s"
  "lastActivity (snd (getDeviceId cfg s)) = lastActivity s"
  "isTabActive (snd (getDeviceId cfg s)) = isTabActive s"
  "clock (snd (getDeviceId cfg s)) = clock s"
  "timers (snd (getDeviceId cfg s)) = timers s"
  "nextTimerId (snd (getDeviceId cfg s)) = nextTimerId s"
  "pending (snd (getDeviceId cfg s)) = pending s"
  "unloadListeners (snd (getDeviceId cfg s)) = unloadListeners s"
  "sink (snd (getDeviceId cfg s)) = sink s"
  "console (snd (getDeviceId cfg s)) = console s"
  by (simp_all add: getDeviceId_def setItem_def Let_def)

lemma setUserName_frame [simp]:
  "eventQueue (setUserName n s) = eventQueue s"
  "flushTimeout (setUserName n s) = flushTimeout s"
  "pingInterval (setUserName n s) = pingInterval s"
  "lastActivity (setUserName n s) = lastActivity s"
  "isTabActive (setUserName n s) = isTabActive s"
  "clock (setUserName n s) = clock s"
  "timers (setUserName n s) = timers s"
  "nextTimerId (setUserName n s) = nextTimerId s"
  "pending (setUserName n s) = pending s"
  "unloadListeners (setUserName n s) = unloadListeners s"
  "sink (setUserName n s) = sink s"
  "console (setUserName n s) = console s"
  by (simp_all add: setUserName_def setItem_def)

lemma logError_frame [simp]:
  "eventQueue (logError m r s) = eventQueue s"
  "flushTimeout (logError m r s) = flushTimeout s"
  "pingInterval (logError m r s) = pingInterval s"
  "lastActivity (logError m r s) = lastActivity s"
  "isTabActive (logError m r s) = isTabActive s"
  "clock (logError m r s) = clock s"
  "localStorage (logError m r s) = localStorage s"
  "timers (logError m r s) = timers s"
  "nextTimerId (logError m r s) = nextTimerId s"
  "pending (logError m r s) = pending s"
  "unloadListeners (logError m r s) = unloadListeners s"
  "sink (logError m r s) = sink s"
  by (simp_all add: logError_def console_error_def split: option.splits)

lemma flushVisitLogs_frame [simp]:
  "eventQueue (flushVisitLogs cfg v s) = eventQueue s"
  "flushTimeout (flushVisitLogs cfg v s) = flushTimeout s"
  "pingInterval (flushVisitLogs cfg v s) = pingInterval s"
  "lastActivity (flushVisitLogs cfg v s) = lastActivity s"
  "isTabActive (flushVisitLogs cfg v s) = isTabActive s"
  "clock (flushVisitLogs cfg v s) = clock s"
  "localStorage (flushVisitLogs cfg v s) = localStorage s"
  "timers (flushVisitLogs cfg v s) = timers s"
  "nextTimerId (flushVisitLogs cfg v s) = nextTimerId s"
  "unloadListeners (flushVisitLogs cfg v s) = unloadListeners s"
  "console (flushVisitLogs cfg v s) = console s"
  by (simp_all add: flushVisitLogs_def await_def sinkCall_def)

lemma flushEvents_frame [simp]:
  "flushTimeout (flushEvents cfg s) = flushTimeout s"
  "pingInterval (flushEvents cfg s) = pingInterval s"
  "lastActivity (flushEvents cfg s) = lastActivity s"
  "isTabActive (flushEvents cfg s) = isTabActive s"
  "clock (flushEvents cfg s) = clock s"
  "localStorage (flushEvents cfg s) = localStorage s"
  "timers (flushEvents cfg s) = timers s"
  "nextTimerId (flushEvents cfg s) = nextTimerId s"
  "unloadListeners (flushEvents cfg s) = unloadListeners s"
  "console (flushEvents cfg s) = console s"
  by (simp_all add: flushEvents_def flushOperation_def safeAnalyticsOperation_def
      flushVisitLogs_def await_def sinkCall_def Let_def)

lemma flushEvents_queue:
  "eventQueue (flushEvents cfg s) = (if isAnalyticsEnabled cfg then [] else eventQueue s)"
  by (simp add: flushEvents_def flushOperation_def safeAnalyticsOperation_def
      flushVisitLogs_def await_def sinkCall_def Let_def)

lemma scheduleFlush_frame [simp]:
  "eventQueue (scheduleFlush s) = eventQueue s"
  "pingInterval (scheduleFlush s) = pingInterval s"
  "lastActivity (scheduleFlush s) = lastActivity s"
  "isTabActive (scheduleFlush s) = isTabActive s"
  "clock (scheduleFlush s) = clock s"
  "localStorage (scheduleFlush s) = localStorage s"
  "pending (scheduleFlush s) = pending s"
  "unloadListeners (scheduleFlush s) = unloadListeners s"
  "sink (scheduleFlush s) = sink s"
  "console (scheduleFlush s) = console s"
  by (simp_all add: scheduleFlush_def setTimeout_def clearTimeout_def Let_def split: option.splits)

lemma scheduleFlush_timers:
  "flushTimeout (scheduleFlush s) = Some (nextTimerId s)"
  "nextTimerId (scheduleFlush s) = Suc (nextTimerId s)"
  "timers (scheduleFlush s) =
     filter (\<lambda>t. Some (timer_id t) \<noteq> flushTimeout s) (timers s)
       @ [Timer (nextTimerId s) (clock s + FLUSH_INTERVAL) None FlushEvents]"
  by (simp_all add: scheduleFlush_def setTimeout_def clearTimeout_def Let_def split: option.splits)

lemma sendPing_frame [simp]:
  "eventQueue (sendPing cfg d u c s) = eventQueue s"
  "flushTimeout (sendPing cfg d u c s) = flushTimeout s"
  "pingInterval (sendPing cfg d u c s) = pingInterval s"
  "lastActivity (sendPing cfg d u c s) = lastActivity s"
  "isTabActive (sendPing cfg d u c s) = isTabActive s"
  "clock (sendPing cfg d u c s) = clock s"
  "localStorage (sendPing cfg d u c s) = localStorage s"
  "timers (sendPing cfg d u c s) = timers s"
  "nextTimerId (sendPing cfg d u c s) = nextTimerId s"
  "unloadListeners (sendPing cfg d u c s) = unloadListeners s"
  "console (sendPing cfg d u c s) = console s"
  by (simp_all add: sendPing_def returnTo_def safeAnalyticsOperation_def await_def sinkCall_def
      split: option.splits)

lemma startLiveTracking_frame [simp]:
  "eventQueue (startLiveTracking cfg s) = eventQueue s"
  "flushTimeout (startLiveTracking cfg s) = flushTimeout s"
  "pingInterval (startLiveTracking cfg s) = pingInterval s"
  "lastActivity (startLiveTracking cfg s) = lastActivity s"
  "isTabActive (startLiveTracking cfg s) = isTabActive s"
  "clock (startLiveTracking cfg s) = clock s"
  "timers (startLiveTracking cfg s) = timers s"
  "nextTimerId (startLiveTracking cfg s) = nextTimerId s"
  "unloadListeners (startLiveTracking cfg s) = unloadListeners s"
  "console (startLiveTracking cfg s) = console s"
  by (simp_all add: startLiveTracking_def split_def Let_def)

lemma startLiveTracking_resume_frame [simp]:
  "eventQueue (startLiveTracking_resume d u s) = eventQueue s"
  "flushTimeout (startLiveTracking_resume d u s) = flushTimeout s"
  "lastActivity (startLiveTracking_resume d u s) = lastActivity s"
  "isTabActive (startLiveTracking_resume d u s) = isTabActive s"
  "clock (startLiveTracking_resume d u s) = clock s"
  "localStorage (startLiveTracking_resume d u s) = localStorage s"
  "pending (startLiveTracking_resume d u s) = pending s"
  "sink (startLiveTracking_resume d u s) = sink s"
  "console (startLiveTracking_resume d u s) = console s"
  by (simp_all add: startLiveTracking_resume_def setInterval_def clearInterval_def Let_def
      split: option.splits)

lemma startLiveTracking_resume_timers:
  "pingInterval (startLiveTracking_resume d u s) = Some (nextTimerId s)"
  "nextTimerId (startLiveTracking_resume d u s) = Suc (nextTimerId s)"
  "timers (startLiveTracking_resume d u s) =
     filter (\<lambda>t. Some (timer_id t) \<noteq> pingInterval s) (timers s)
       @ [Timer (nextTimerId s) (clock s + PING_INTERVAL) (Some PING_INTERVAL) (PingClosure d u)]"
  "unloadListeners (startLiveTracking_resume d u s) = unloadListeners s @ [(d, u)]"
  by (simp_all add: startLiveTracking_resume_def setInterval_def clearInterval_def Let_def
      split: option.splits)


lemma queueEvent_frame [simp]:
  "pingInterval (queueEvent cfg t d s) = pingInterval s"
  "lastActivity (queueEvent cfg t d s) = lastActivity s"
  "isTabActive (queueEvent cfg t d s) = isTabActive s"
  "clock (queueEvent cfg t d s) = clock s"
  "localStorage (queueEvent cfg t d s) = localStorage s"
  "unloadListeners (queueEvent cfg t d s) = unloadListeners s"
  "console (queueEvent cfg t d s) = console s"
  by (simp_all add: queueEvent_def Let_def)

lemma trackUserVisit_frame [simp]:
  "eventQueue (trackUserVisit cfg n s) = eventQueue s"
  "flushTimeout (trackUserVisit cfg n s) = flushTimeout s"
  "pingInterval (trackUserVisit cfg n s) = pingInterval s"
  "timers (trackUserVisit cfg n s) = timers s"
  "nextTimerId (trackUserVisit cfg n s) = nextTimerId s"
  "unloadListeners (trackUserVisit cfg n s) = unloadListeners s"
  by (simp_all add: trackUserVisit_def safeAnalyticsOperation_def split_def await_def sinkCall_def Let_def)

lemma trackUserVisit_selected_frame [simp]:
  "eventQueue (trackUserVisit_selected cfg n d r s) = eventQueue s"
  "flushTimeout (trackUserVisit_selected cfg n d r s) = flushTimeout s"
  "pingInterval (trackUserVisit_selected cfg n d r s) = pingInterval s"
  "timers (trackUserVisit_selected cfg n d r s) = timers s"
  "nextTimerId (trackUserVisit_selected cfg n d r s) = nextTimerId s"
  "unloadListeners (trackUserVisit_selected cfg n d r s) = unloadListeners s"
  by (simp_all add: trackUserVisit_selected_def await_def sinkCall_def console_error_def Let_def
      split: option.splits)

lemma unloadClosure_frame [simp]:
  "eventQueue (unloadClosure cfg c s) = eventQueue s"
  "flushTimeout (unloadClosure cfg c s) = flushTimeout s"
  "pingInterval (unloadClosure cfg c s) = pingInterval s"
  "nextTimerId (unloadClosure cfg c s) = nextTimerId s"
  "pending (unloadClosure cfg c s) = pending s"
  "unloadListeners (unloadClosure cfg c s) = unloadListeners s"
  "clock (unloadClosure cfg c s) = clock s"
  "timers (unloadClosure cfg c s) = filter (\<lambda>t. Some (timer_id t) \<noteq> pingInterval s) (timers s)"
  by (simp_all add: unloadClosure_def clearInterval_def sinkCall_def Let_def split: option.splits)

subsection \<open>The queue stays below its maximum\<close>


lemma queueEvent_length:
  "isAnalyticsEnabled cfg \<Longrightarrow> length (eventQueue (queueEvent cfg t d s)) < MAX_QUEUE_SIZE"
  by (simp add: queueEvent_def Let_def flushEvents_queue MAX_QUEUE_SIZE_def)

lemma queueEvent_queue_inv: "queue_inv s \<Longrightarrow> queue_inv (queueEvent cfg t d s)"
proof (cases "isAnalyticsEnabled cfg")
  case True
  then show ?thesis by (simp add: queue_inv_def queueEvent_length)
next
  case False
  then show "queue_inv s \<Longrightarrow> ?thesis" by (simp add: queueEvent_def)
qed

lemma flushEvents_queue_inv: "queue_inv s \<Longrightarrow> queue_inv (flushEvents cfg s)"
  by (simp add: queue_inv_def flushEvents_queue MAX_QUEUE_SIZE_def)

lemma fold_unloadClosure_queue [simp]:
  "eventQueue (fold (unloadClosure cfg) cs s) = eventQueue s"
  by (induction cs arbitrary: s) simp_all

lemma trackBusinessInteraction_queue_inv:
  "queue_inv s \<Longrightarrow> queue_inv (trackBusinessInteraction cfg e b s)"
  unfolding trackBusinessInteraction_def split_def Let_def
  by (rule queueEvent_queue_inv) (simp add: queue_inv_def)

lemma trackUserVisit_written_queue_inv:
  assumes "queue_inv s"
  shows "queue_inv (trackUserVisit_written cfg m n d r s)"
proof -
  have "queue_inv (logError m r s)"
    using assms by (simp add: queue_inv_def)
  then have "queue_inv (queueEvent cfg ''visit_logs'' (visitLog cfg d n (logError m r s)) (logError m r s))"
    by (rule queueEvent_queue_inv)
  then show ?thesis
    by (simp add: trackUserVisit_written_def Let_def queue_inv_def)
qed

lemma initializeTracking_queue_inv:
  assumes "queue_inv s"
  shows "queue_inv (initializeTracking cfg s)"
proof -
  let ?p = "getDeviceId cfg s"
  have "queue_inv (snd ?p)"
    using assms by (simp add: queue_inv_def)
  then have "queue_inv (queueEvent cfg ''visit_logs'' dat (snd ?p))" for dat
    by (rule queueEvent_queue_inv)
  then show ?thesis
    using assms
    by (simp add: initializeTracking_def safeAnalyticsOperation_def split_def Let_def
        await_def sinkCall_def queue_inv_def)
qed

lemma runCallback_queue_inv: "queue_inv s \<Longrightarrow> queue_inv (runCallback cfg cb s)"
  by (cases cb) (simp_all add: flushEvents_queue_inv, simp add: queue_inv_def)

lemma fireTimer_queue_inv:
  assumes "queue_inv s"
  shows "queue_inv (fireTimer cfg h s)"
proof (cases "find (\<lambda>t. timer_id t = h) (timers s)")
  case None
  then show ?thesis using assms by (simp add: fireTimer_def)
next
  case (Some t)
  have "queue_inv (s\<lparr>timers := ts\<rparr>)" for ts
    using assms by (simp add: queue_inv_def)
  then show ?thesis
    using Some assms by (simp add: fireTimer_def Let_def runCallback_queue_inv split: option.splits)
qed

lemma resumeTask_queue_inv:
  assumes "queue_inv s"
  shows "queue_inv (resumeTask cfg k r s)"
proof (cases k)
  case (VisitWrite m n d)
  then show ?thesis using assms by (simp add: trackUserVisit_written_queue_inv)
qed (use assms in \<open>simp_all add: queue_inv_def Let_def split: option.splits\<close>)

lemma step_queue_inv:
  assumes "queue_inv s"
  shows "queue_inv (step cfg e s)"
proof (cases e)
  case (Resume n r)
  have "queue_inv (s\<lparr>pending := take n (pending s) @ drop (Suc n) (pending s)\<rparr>)"
    using assms by (simp add: queue_inv_def)
  then show ?thesis using assms Resume by (simp add: resumeTask_queue_inv)
next
  case BeforeUnload
  then show ?thesis using flushEvents_queue_inv [OF assms, of cfg] by (simp add: queue_inv_def)
qed (use assms in \<open>simp_all add: trackBusinessInteraction_queue_inv initializeTracking_queue_inv
       fireTimer_queue_inv Let_def\<close>, simp_all add: queue_inv_def)

lemma run_queue_inv: "queue_inv s \<Longrightarrow> queue_inv (run cfg es s)"
  by (induction es arbitrary: s) (simp_all add: step_queue_inv)

lemma init_queue_inv: "queue_inv (init t0 ls)"
  by (simp add: queue_inv_def init_def MAX_QUEUE_SIZE_def)

subsection \<open>One live timer of each kind\<close>

lemma timer_inv_frame:
  assumes "timers s' = timers s" "nextTimerId s' = nextTimerId s"
    "flushTimeout s' = flushTimeout s" "pingInterval s' = pingInterval s"
  shows "timer_inv s' = timer_inv s"
  by (simp add: timer_inv_def assms)

lemma same_key_at_most_one:
  assumes "distinct (map f xs)" "\<forall>x\<in>set xs. P x \<longrightarrow> f x = c"
  shows "length (filter P xs) \<le> 1"
proof -
  have d: "distinct (map f (filter P xs))"
    using assms(1) by (rule distinct_map_filter)
  have "map f (filter P xs) = replicate (length (filter P xs)) c"
    using assms(2) by (induction xs) auto
  with d have "distinct (replicate (length (filter P xs)) c)"
    by simp
  then show ?thesis
    by (cases "length (filter P xs)") (simp_all add: set_replicate_conv_if split: if_splits)
qed

lemma timer_inv_one_flush: "timer_inv s \<Longrightarrow> length (filter isFlushTimer (timers s)) \<le> 1"
proof -
  assume inv: "timer_inv s"
  show ?thesis
  proof (cases "flushTimeout s")
    case None
    with inv have "filter isFlushTimer (timers s) = []"
      by (auto simp: timer_inv_def list_all_iff isFlushTimer_def filter_empty_conv)
    then show ?thesis by simp
  next
    case (Some h)
    with inv show ?thesis
      by (intro same_key_at_most_one [where f = timer_id and c = h])
         (auto simp: timer_inv_def list_all_iff isFlushTimer_def)
  qed
qed

lemma timer_inv_one_ping: "timer_inv s \<Longrightarrow> length (filter isPingTimer (timers s)) \<le> 1"
proof -
  assume inv: "timer_inv s"
  show ?thesis
  proof (cases "pingInterval s")
    case None
    with inv have "filter isPingTimer (timers s) = []"
      by (auto simp: timer_inv_def list_all_iff isPingTimer_def filter_empty_conv)
    then show ?thesis by simp
  next
    case (Some h)
    with inv show ?thesis
      by (intro same_key_at_most_one [where f = timer_id and c = h])
         (auto simp: timer_inv_def list_all_iff isPingTimer_def)
  qed
qed

lemma scheduleFlush_timer_inv: "timer_inv s \<Longrightarrow> timer_inv (scheduleFlush s)"
  by (auto simp: timer_inv_def scheduleFlush_timers list_all_iff distinct_map_filter
      intro: less_SucI)

lemma startLiveTracking_resume_timer_inv:
  "timer_inv s \<Longrightarrow> timer_inv (startLiveTracking_resume d u s)"
  by (auto simp: timer_inv_def startLiveTracking_resume_timers list_all_iff distinct_map_filter
      intro: less_SucI)

lemma unloadClosure_timer_inv: "timer_inv s \<Longrightarrow> timer_inv (unloadClosure cfg c s)"
  by (auto simp: timer_inv_def list_all_iff distinct_map_filter)

lemma fold_unloadClosure_timer_inv:
  "timer_inv s \<Longrightarrow> timer_inv (fold (unloadClosure cfg) cs s)"
  by (induction cs arbitrary: s) (simp_all add: unloadClosure_timer_inv)

lemma flushEvents_timer_inv: "timer_inv (flushEvents cfg s) = timer_inv s"
  by (rule timer_inv_frame) simp_all

lemma sendPing_timer_inv: "timer_inv (sendPing cfg d u c s) = timer_inv s"
  by (rule timer_inv_frame) simp_all

lemma startLiveTracking_timer_inv: "timer_inv (startLiveTracking cfg s) = timer_inv s"
  by (rule timer_inv_frame) simp_all

lemma queueEvent_timer_inv: "timer_inv s \<Longrightarrow> timer_inv (queueEvent cfg t d s)"
proof -
  assume inv: "timer_inv s"
  have "timer_inv (s\<lparr>eventQueue := q\<rparr>)" for q
    using inv by (simp add: timer_inv_def)
  then show ?thesis
    using inv by (simp add: queueEvent_def Let_def flushEvents_timer_inv scheduleFlush_timer_inv)
qed

lemma getDeviceId_timer_inv: "timer_inv (snd (getDeviceId cfg s)) = timer_inv s"
  by (rule timer_inv_frame) simp_all

lemma trackBusinessInteraction_timer_inv:
  "timer_inv s \<Longrightarrow> timer_inv (trackBusinessInteraction cfg e b s)"
  unfolding trackBusinessInteraction_def split_def Let_def
  by (rule queueEvent_timer_inv) (simp add: getDeviceId_timer_inv)

lemma trackUserVisit_written_timer_inv:
  assumes "timer_inv s"
  shows "timer_inv (trackUserVisit_written cfg m n d r s)"
proof -
  have "timer_inv (logError m r s)"
    using assms by (simp add: timer_inv_def)
  then have "timer_inv (queueEvent cfg ''visit_logs'' (visitLog cfg d n (logError m r s)) (logError m r s))"
    by (rule queueEvent_timer_inv)
  then have "timer_inv (setUserName n (queueEvent cfg ''visit_logs'' (visitLog cfg d n (logError m r s)) (logError m r s)))"
    by (simp add: timer_inv_def)
  then show ?thesis
    by (simp add: trackUserVisit_written_def Let_def startLiveTracking_timer_inv)
qed

lemma initializeTracking_timer_inv:
  assumes "timer_inv s"
  shows "timer_inv (initializeTracking cfg s)"
proof -
  let ?p = "getDeviceId cfg s"
  have p: "timer_inv (snd ?p)"
    using assms by (simp add: getDeviceId_timer_inv)
  then have "timer_inv (queueEvent cfg ''visit_logs'' dat (snd ?p))" for dat
    by (rule queueEvent_timer_inv)
  then have "timer_inv (await k (sinkCall c (queueEvent cfg ''visit_logs'' dat (snd ?p))))" for dat k c
    by (simp add: timer_inv_def await_def sinkCall_def)
  then show ?thesis
    using assms p
    by (simp add: initializeTracking_def safeAnalyticsOperation_def split_def Let_def)
qed

lemma runCallback_timer_inv: "timer_inv (runCallback cfg cb s) = timer_inv s"
  by (cases cb) (simp_all add: flushEvents_timer_inv sendPing_timer_inv)

lemma map_rearm_ids:
  "map timer_id (map (\<lambda>x. if timer_id x = h then Timer h d p (callback x) else x) ts)
     = map timer_id ts"
  by (induction ts) auto

lemma fireTimer_timer_inv:
  assumes "timer_inv s"
  shows "timer_inv (fireTimer cfg h s)"
proof (cases "find (\<lambda>t. timer_id t = h) (timers s)")
  case None
  then show ?thesis using assms by (simp add: fireTimer_def)
next
  case (Some t)
  have spent: "timer_inv (s\<lparr>timers := filter (\<lambda>x. timer_id x \<noteq> h) (timers s)\<rparr>)"
    using assms by (auto simp: timer_inv_def list_all_iff distinct_map_filter)
  have rearmed: "timer_inv (s\<lparr>timers := map (\<lambda>x. if timer_id x = h
        then Timer h d (Some p) (callback x) else x) (timers s)\<rparr>)" for d p
    using assms by (auto simp: timer_inv_def list_all_iff map_rearm_ids [unfolded map_map])
  show ?thesis
    using Some assms spent rearmed
    by (simp add: fireTimer_def Let_def runCallback_timer_inv split: option.splits)
qed

lemma resumeTask_timer_inv:
  assumes "timer_inv s"
  shows "timer_inv (resumeTask cfg k r s)"
proof (cases k)
  case (FlushInteractions v)
  have "timer_inv (flushVisitLogs cfg v s') = timer_inv s'" for s'
    by (rule timer_inv_frame) simp_all
  moreover have "timer_inv (logError m r s) = timer_inv s" for m
    by (rule timer_inv_frame) simp_all
  ultimately show ?thesis using assms FlushInteractions by simp
next
  case FlushVisits
  have "timer_inv (logError m r s) = timer_inv s" for m
    by (rule timer_inv_frame) simp_all
  then show ?thesis using assms FlushVisits by simp
next
  case (PingUpsert c)
  have "timer_inv (logError m r s)" for m
    using assms by (simp add: timer_inv_def)
  then show ?thesis
    using PingUpsert by (simp add: Let_def startLiveTracking_resume_timer_inv split: option.splits)
next
  case (StartLive d u)
  then show ?thesis using assms by (simp add: startLiveTracking_resume_timer_inv)
next
  case (VisitSelect n d)
  have "timer_inv (trackUserVisit_selected cfg n d r s) = timer_inv s"
    by (rule timer_inv_frame) simp_all
  then show ?thesis using assms VisitSelect by simp
next
  case (VisitWrite m n d)
  then show ?thesis using assms by (simp add: trackUserVisit_written_timer_inv)
next
  case InitUpdate
  then show ?thesis using assms by (simp add: startLiveTracking_timer_inv)
qed

lemma step_timer_inv:
  assumes "timer_inv s"
  shows "timer_inv (step cfg e s)"
proof (cases e)
  case (TrackBusinessInteraction et b)
  then show ?thesis using assms by (simp add: trackBusinessInteraction_timer_inv)
next
  case (TrackUserVisit n)
  have "timer_inv (trackUserVisit cfg n s) = timer_inv s"
    by (rule timer_inv_frame) simp_all
  then show ?thesis using assms TrackUserVisit by simp
next
  case InitializeTracking
  then show ?thesis using assms by (simp add: initializeTracking_timer_inv)
next
  case StartLiveTracking
  then show ?thesis using assms by (simp add: startLiveTracking_timer_inv)
next
  case (SetUserName n)
  then show ?thesis using assms by (simp add: timer_inv_def)
next
  case (Elapse dt)
  then show ?thesis using assms by (simp add: timer_inv_def)
next
  case (FireTimer h)
  then show ?thesis using assms by (simp add: fireTimer_timer_inv)
next
  case (Resume n r)
  have "timer_inv (s\<lparr>pending := take n (pending s) @ drop (Suc n) (pending s)\<rparr>)"
    using assms by (simp add: timer_inv_def)
  then show ?thesis using assms Resume by (simp add: resumeTask_timer_inv)
next
  case Activity
  then show ?thesis using assms by (simp add: timer_inv_def)
next
  case (VisibilityChange hidden)
  then show ?thesis using assms by (simp add: timer_inv_def Let_def)
next
  case BeforeUnload
  then show ?thesis
    using assms by (simp add: fold_unloadClosure_timer_inv flushEvents_timer_inv)
qed

lemma run_timer_inv: "timer_inv s \<Longrightarrow> timer_inv (run cfg es s)"
  by (induction es arbitrary: s) (simp_all add: step_timer_inv)

lemma init_timer_inv: "timer_inv (init t0 ls)"
  by (simp add: timer_inv_def init_def)

subsection \<open>Evaluating the worked examples\<close>

lemma nineQueued_eval:
  "nineQueued = (init 0 [])\<lparr>eventQueue := replicate 9 (Queued ''visit_logs'' []),
     flushTimeout := Some 9, timers := [Timer 9 5000 None FlushEvents], nextTimerId := 10\<rparr>"
  by code_simp

lemma burst2_eval:
  "burst2 = (init 0 [])\<lparr>eventQueue :=
        [Queued ''business_interactions'' [(''event_type'', JStr ''view'')],
         Queued ''business_interactions'' [(''event_type'', JStr ''call'')]],
     flushTimeout := Some 2, clock := 2000,
     timers := [Timer 2 6000 None FlushEvents], nextTimerId := 3\<rparr>"
  by code_simp

lemmas eval_defs =
  init_def cfg0_def cfgOff_def queueEvent_def flushEvents_def flushOperation_def flushVisitLogs_def
  safeAnalyticsOperation_def scheduleFlush_def setTimeout_def clearTimeout_def
  await_def sinkCall_def fireTimer_def Let_def MAX_QUEUE_SIZE_def FLUSH_INTERVAL_def

lemma find_append_cases:
  "find P (xs @ ys) = (case find P xs of None \<Rightarrow> find P ys | Some x \<Rightarrow> Some x)"
  by (induction xs) simp_all

lemmas ping_defs =
  init_def cfg0_def startLiveTracking_def startLiveTracking_resume_def sendPing_def returnTo_def
  getDeviceId_def getUserName_def getItem_def DEVICE_ID_KEY_def USER_NAME_KEY_def
  safeAnalyticsOperation_def await_def sinkCall_def setInterval_def clearInterval_def
  logError_def ok_def nullable_def fireTimer_def Let_def PING_INTERVAL_def MIN_ACTIVITY_GAP_def

lemma twoCalls_eval:
  "twoCalls = (init 0 [(''jawala_device_id'', ''d1'')])\<lparr>pingInterval := Some 2,
      timers := [Timer 2 20000 (Some 20000) (PingClosure ''d1'' None)], nextTimerId := 3,
      unloadListeners := [(''d1'', None), (''d1'', None)],
      sink := [Upsert ''live_users'' [(''device_id'', JStr ''d1''), (''user_name'', JNull),
                 (''is_active'', JBool True), (''last_ping'', JTime 0)] ''device_id'',
               Upsert ''live_users'' [(''device_id'', JStr ''d1''), (''user_name'', JNull),
                 (''is_active'', JBool True), (''last_ping'', JTime 0)] ''device_id'']\<rparr>"
  by (simp add: twoCalls_def ping_defs)

lemma startLiveTracking_pending:
  assumes "isAnalyticsEnabled cfg"
  shows "\<exists>k. liveTask (fst (getDeviceId cfg s)) (getUserName (snd (getDeviceId cfg s))) k
           \<and> pending (startLiveTracking cfg s) = pending s @ [k]"
  using assms
  by (simp add: startLiveTracking_def split_def Let_def sendPing_def returnTo_def
      safeAnalyticsOperation_def await_def sinkCall_def liveTask_def)

lemma resume_liveTask:
  assumes "liveTask d u k"
  shows "timers (resumeTask cfg k r s) = timers (startLiveTracking_resume d u s)"
    "nextTimerId (resumeTask cfg k r s) = Suc (nextTimerId s)"
    "pingInterval (resumeTask cfg k r s) = Some (nextTimerId s)"
    "flushTimeout (resumeTask cfg k r s) = flushTimeout s"
    "pending (resumeTask cfg k r s) = pending s"
    "eventQueue (resumeTask cfg k r s) = eventQueue s"
    "sink (resumeTask cfg k r s) = sink s"
    "clock (resumeTask cfg k r s) = clock s"
    "unloadListeners (resumeTask cfg k r s) = unloadListeners s @ [(d, u)]"
  using assms
  by (auto simp: liveTask_def Let_def startLiveTracking_resume_timers)

lemma resume_liveTask_timer_inv:
  "liveTask d u k \<Longrightarrow> timer_inv s \<Longrightarrow> timer_inv (resumeTask cfg k r s)"
  by (rule resumeTask_timer_inv)

lemma only_ping_after_resume:
  assumes "timer_inv s"
  shows "filter isPingTimer (timers (startLiveTracking_resume d u s))
     = [Timer (nextTimerId s) (clock s + PING_INTERVAL) (Some PING_INTERVAL) (PingClosure d u)]"
proof -
  have "filter isPingTimer (filter (\<lambda>t. Some (timer_id t) \<noteq> pingInterval s) (timers s)) = []"
    using assms by (auto simp: timer_inv_def list_all_iff isPingTimer_def filter_empty_conv)
  then show ?thesis
    by (simp add: startLiveTracking_resume_timers isPingTimer_def)
qed

lemma two_calls_one_schedule:
  assumes en: "isAnalyticsEnabled cfg" and inv: "timer_inv s"
  shows "\<exists>t. filter isPingTimer (timers (run cfg
      [StartLiveTracking, StartLiveTracking, Resume (length (pending s)) r,
       Resume (length (pending s)) r'] s)) = [t]"
proof -
  let ?n = "length (pending s)"
  let ?s1 = "startLiveTracking cfg s"
  let ?s2 = "startLiveTracking cfg ?s1"
  obtain d1 u1 k1 where k1: "liveTask d1 u1 k1" "pending ?s1 = pending s @ [k1]"
    using startLiveTracking_pending [OF en, of s] by blast
  obtain d2 u2 k2 where k2: "liveTask d2 u2 k2" "pending ?s2 = pending ?s1 @ [k2]"
    using startLiveTracking_pending [OF en, of ?s1] by blast
  have p2: "pending ?s2 = pending s @ [k1, k2]"
    by (simp add: k1 k2)
  let ?s2' = "?s2\<lparr>pending := pending s @ [k2]\<rparr>"
  let ?s3 = "resumeTask cfg k1 r ?s2'"
  have st3: "step cfg (Resume ?n r) ?s2 = ?s3"
    by (simp add: p2 nth_append)
  have inv2: "timer_inv ?s2'"
    using inv by (simp add: timer_inv_def)
  have inv3: "timer_inv ?s3"
    using inv2 by (rule resumeTask_timer_inv)
  have p3: "pending ?s3 = pending s @ [k2]"
    by (simp add: resume_liveTask(5) [OF k1(1)])
  let ?s3' = "?s3\<lparr>pending := pending s\<rparr>"
  let ?s4 = "resumeTask cfg k2 r' ?s3'"
  have st4: "step cfg (Resume ?n r') ?s3 = ?s4"
    by (simp add: p3 nth_append)
  have inv3': "timer_inv ?s3'"
    using inv3 by (simp add: timer_inv_def)
  have "filter isPingTimer (timers ?s4)
      = filter isPingTimer (timers (startLiveTracking_resume d2 u2 ?s3'))"
    by (simp add: resume_liveTask(1) [OF k2(1)])
  also have "\<dots> = [Timer (nextTimerId ?s3') (clock ?s3' + PING_INTERVAL) (Some PING_INTERVAL)
      (PingClosure d2 u2)]"
    using inv3' by (rule only_ping_after_resume)
  finally have "\<exists>t. filter isPingTimer (timers ?s4) = [t]"
    by blast
  moreover have "run cfg [StartLiveTracking, StartLiveTracking, Resume ?n r, Resume ?n r'] s = ?s4"
    using st3 st4 by simp
  ultimately show ?thesis
    by simp
qed

lemma enqueueAll_below:
  assumes "isAnalyticsEnabled cfg"
  shows "length (eventQueue s) + length evs < MAX_QUEUE_SIZE \<Longrightarrow>
         eventQueue (enqueueAll cfg evs s) = eventQueue s @ evs
         \<and> sink (enqueueAll cfg evs s) = sink s
         \<and> pending (enqueueAll cfg evs s) = pending s"
proof (induction evs arbitrary: s)
  case Nil
  then show ?case by (simp add: enqueueAll_def)
next
  case (Cons e evs)
  let ?s1 = "queueEvent cfg (table e) (data e) s"
  have q: "?s1 = scheduleFlush (s\<lparr>eventQueue := eventQueue s @ [e]\<rparr>)"
    using assms Cons.prems by (simp add: queueEvent_def Let_def)
  have "length (eventQueue ?s1) + length evs < MAX_QUEUE_SIZE"
    using Cons.prems by (simp add: q)
  from Cons.IH [OF this] show ?case
    by (simp add: enqueueAll_def q)
qed

lemma flushEvents_start:
  assumes "isAnalyticsEnabled cfg" "analyticsClient cfg \<noteq> None"
  shows "eventQueue (flushEvents cfg s) = []"
    and "sink (flushEvents cfg s) = sink s @ take 1 (groupedWrites (eventQueue s))"
    and "pending (flushEvents cfg s) = pending s @
          (if filter (\<lambda>e. table e = ''business_interactions'') (eventQueue s) \<noteq> []
           then [FlushInteractions (filter (\<lambda>e. table e = ''visit_logs'') (eventQueue s))]
           else if filter (\<lambda>e. table e = ''visit_logs'') (eventQueue s) \<noteq> [] then [FlushVisits]
           else [])"
  using assms
  by (auto simp: flushEvents_def flushOperation_def flushVisitLogs_def safeAnalyticsOperation_def
      await_def sinkCall_def groupedWrites_def Let_def)

lemma resume_flush_step:
  assumes cl: "analyticsClient cfg \<noteq> None"
    and p: "pending s' = ps @ ks" "length ps = n"
    and ks: "ks = (if bi \<noteq> [] then [FlushInteractions vl] else if vl \<noteq> [] then [FlushVisits] else [])"
  shows "eventQueue (step cfg (Resume n r) s') = eventQueue s'"
    and "sink (step cfg (Resume n r) s')
          = sink s' @ (if bi \<noteq> [] \<and> vl \<noteq> [] then [Insert ''visit_logs'' (map data vl)] else [])"
    and "pending (step cfg (Resume n r) s')
          = ps @ (if bi \<noteq> [] \<and> vl \<noteq> [] then [FlushVisits] else [])"
  using cl p(2)
  by (auto simp: p(1) ks nth_append flushVisitLogs_def await_def sinkCall_def)

lemma resume_visits_step:
  assumes p: "pending s' = ps @ ks" "length ps = n"
    and ks: "ks = (if b then [FlushVisits] else [])"
  shows "eventQueue (step cfg (Resume n r) s') = eventQueue s'"
    and "sink (step cfg (Resume n r) s') = sink s'"
    and "pending (step cfg (Resume n r) s') = ps"
  using p(2) by (auto simp: p(1) ks nth_append)

lemma flushInFlight_effect:
  assumes en: "isAnalyticsEnabled cfg" and cl: "analyticsClient cfg \<noteq> None"
    and len: "length evs1 + length evs2 < MAX_QUEUE_SIZE"
  shows "sink (flushInFlight cfg evs1 r1 evs2 r2 s) = sink s @ groupedWrites (eventQueue s)
       \<and> eventQueue (flushInFlight cfg evs1 r1 evs2 r2 s) = evs1 @ evs2
       \<and> pending (flushInFlight cfg evs1 r1 evs2 r2 s) = pending s"
proof -
  define n where "n = length (pending s)"
  define bi where "bi = filter (\<lambda>e. table e = ''business_interactions'') (eventQueue s)"
  define vl where "vl = filter (\<lambda>e. table e = ''visit_logs'') (eventQueue s)"
  define s1 where "s1 = flushEvents cfg s"
  define s2 where "s2 = enqueueAll cfg evs1 s1"
  define s3 where "s3 = step cfg (Resume n r1) s2"
  define s4 where "s4 = enqueueAll cfg evs2 s3"
  define s5 where "s5 = step cfg (Resume n r2) s4"
  define ks where "ks = (if bi \<noteq> [] then [FlushInteractions vl]
                          else if vl \<noteq> [] then [FlushVisits] else [])"
  have q1: "eventQueue s1 = []"
    and k1: "sink s1 = sink s @ take 1 (groupedWrites (eventQueue s))"
    and p1: "pending s1 = pending s @ ks"
    using flushEvents_start [OF en cl, of s] by (simp_all add: s1_def ks_def bi_def vl_def)
  have l2: "length (eventQueue s1) + length evs1 < MAX_QUEUE_SIZE"
    using len by (simp add: q1)
  have q2: "eventQueue s2 = evs1" and k2: "sink s2 = sink s1" and p2: "pending s2 = pending s @ ks"
    using enqueueAll_below [OF en l2] by (simp_all add: s2_def q1 p1)
  have n: "length (pending s) = n"
    by (simp add: n_def)
  note r3 = resume_flush_step [OF cl p2 n ks_def, of r1]
  have q3: "eventQueue s3 = evs1"
    and k3: "sink s3 = sink s2 @ (if bi \<noteq> [] \<and> vl \<noteq> [] then [Insert ''visit_logs'' (map data vl)] else [])"
    and p3: "pending s3 = pending s @ (if bi \<noteq> [] \<and> vl \<noteq> [] then [FlushVisits] else [])"
    using r3 by (simp_all add: s3_def q2)
  have l4: "length (eventQueue s3) + length evs2 < MAX_QUEUE_SIZE"
    using len by (simp add: q3)
  have q4: "eventQueue s4 = evs1 @ evs2" and k4: "sink s4 = sink s3"
    and p4: "pending s4 = pending s @ (if bi \<noteq> [] \<and> vl \<noteq> [] then [FlushVisits] else [])"
    using enqueueAll_below [OF en l4] by (simp_all add: s4_def q3 p3)
  note r5 = resume_visits_step [OF p4 n refl, of cfg r2]
  have q5: "eventQueue s5 = evs1 @ evs2" and k5: "sink s5 = sink s4" and p5: "pending s5 = pending s"
    using r5 by (simp_all add: s5_def q4)
  have w: "take 1 (groupedWrites (eventQueue s))
        @ (if bi \<noteq> [] \<and> vl \<noteq> [] then [Insert ''visit_logs'' (map data vl)] else [])
      = groupedWrites (eventQueue s)"
    by (simp add: groupedWrites_def Let_def bi_def vl_def)
  have "sink s5 = sink s @ groupedWrites (eventQueue s)"
    using w by (simp add: k5 k4 k3 k2 k1)
  moreover have "flushInFlight cfg evs1 r1 evs2 r2 s = s5"
    by (simp add: flushInFlight_def Let_def s5_def s4_def s3_def s2_def s1_def n_def)
  ultimately show ?thesis
    using q5 p5 by simp
qed

lemma partition_mset:
  assumes "\<forall>x\<in>set xs. P x \<or> Q x" "\<forall>x\<in>set xs. \<not> (P x \<and> Q x)"
  shows "mset (map f (filter P xs)) + mset (map f (filter Q xs)) = mset (map f xs)"
  using assms by (induction xs) auto

lemma groupedWrites_rows:
  assumes "list_all (\<lambda>e. table e = ''business_interactions'' \<or> table e = ''visit_logs'') q"
  shows "mset (concat (map inserted (groupedWrites q))) = mset (map data q)"
proof -
  have c: "concat (map inserted (groupedWrites q))
      = map data (filter (\<lambda>e. table e = ''business_interactions'') q)
        @ map data (filter (\<lambda>e. table e = ''visit_logs'') q)"
    by (simp add: groupedWrites_def Let_def)
  have "mset (map data (filter (\<lambda>e. table e = ''business_interactions'') q))
      + mset (map data (filter (\<lambda>e. table e = ''visit_logs'') q)) = mset (map data q)"
    using assms by (intro partition_mset) (auto simp: list_all_iff)
  then show ?thesis
    by (simp only: c mset_append)
qed

subsection \<open>Only the two tables are ever queued\<close>

lemma queueEvent_tables_inv:
  assumes "tables_inv s" "tbl = ''business_interactions'' \<or> tbl = ''visit_logs''"
  shows "tables_inv (queueEvent cfg tbl dat s)"
proof (cases "isAnalyticsEnabled cfg")
  case True
  then show ?thesis
    using assms by (auto simp: queueEvent_def Let_def tables_inv_def flushEvents_queue)
next
  case False
  then show ?thesis using assms(1) by (simp add: queueEvent_def)
qed

lemma flushEvents_tables_inv: "tables_inv s \<Longrightarrow> tables_inv (flushEvents cfg s)"
  by (simp add: tables_inv_def flushEvents_queue)

lemma trackBusinessInteraction_tables_inv:
  "tables_inv s \<Longrightarrow> tables_inv (trackBusinessInteraction cfg e b s)"
  unfolding trackBusinessInteraction_def split_def Let_def
  by (rule queueEvent_tables_inv) (simp_all add: tables_inv_def)

lemma trackUserVisit_written_tables_inv:
  assumes "tables_inv s"
  shows "tables_inv (trackUserVisit_written cfg m n d r s)"
proof -
  have "tables_inv (logError m r s)"
    using assms by (simp add: tables_inv_def)
  then have "tables_inv (queueEvent cfg ''visit_logs'' (visitLog cfg d n (logError m r s)) (logError m r s))"
    by (rule queueEvent_tables_inv) simp
  then show ?thesis
    by (simp add: trackUserVisit_written_def Let_def tables_inv_def)
qed

lemma initializeTracking_tables_inv:
  assumes "tables_inv s"
  shows "tables_inv (initializeTracking cfg s)"
proof -
  let ?p = "getDeviceId cfg s"
  have "tables_inv (snd ?p)"
    using assms by (simp add: tables_inv_def)
  then have "tables_inv (queueEvent cfg ''visit_logs'' dat (snd ?p))" for dat
    by (rule queueEvent_tables_inv) simp
  then show ?thesis
    using assms
    by (simp add: initializeTracking_def safeAnalyticsOperation_def split_def Let_def
        await_def sinkCall_def tables_inv_def)
qed

lemma runCallback_tables_inv: "tables_inv s \<Longrightarrow> tables_inv (runCallback cfg cb s)"
  by (cases cb) (simp_all add: flushEvents_tables_inv, simp add: tables_inv_def)

lemma fireTimer_tables_inv:
  assumes "tables_inv s"
  shows "tables_inv (fireTimer cfg h s)"
proof (cases "find (\<lambda>t. timer_id t = h) (timers s)")
  case None
  then show ?thesis using assms by (simp add: fireTimer_def)
next
  case (Some t)
  have "tables_inv (s\<lparr>timers := ts\<rparr>)" for ts
    using assms by (simp add: tables_inv_def)
  then show ?thesis
    using Some assms by (simp add: fireTimer_def Let_def runCallback_tables_inv split: option.splits)
qed

lemma resumeTask_tables_inv:
  assumes "tables_inv s"
  shows "tables_inv (resumeTask cfg k r s)"
proof (cases k)
  case (VisitWrite m n d)
  then show ?thesis using assms by (simp add: trackUserVisit_written_tables_inv)
qed (use assms in \<open>simp_all add: tables_inv_def Let_def split: option.splits\<close>)

lemma step_tables_inv:
  assumes "tables_inv s"
  shows "tables_inv (step cfg e s)"
proof (cases e)
  case (Resume n r)
  have "tables_inv (s\<lparr>pending := take n (pending s) @ drop (Suc n) (pending s)\<rparr>)"
    using assms by (simp add: tables_inv_def)
  then show ?thesis using assms Resume by (simp add: resumeTask_tables_inv)
next
  case BeforeUnload
  then show ?thesis using flushEvents_tables_inv [OF assms, of cfg] by (simp add: tables_inv_def)
qed (use assms in \<open>simp_all add: trackBusinessInteraction_tables_inv initializeTracking_tables_inv
       fireTimer_tables_inv Let_def\<close>, simp_all add: tables_inv_def)

lemma run_tables_inv: "tables_inv s \<Longrightarrow> tables_inv (run cfg es s)"
  by (induction es arbitrary: s) (simp_all add: step_tables_inv)

lemma init_tables_inv: "tables_inv (init t0 ls)"
  by (simp add: tables_inv_def init_def)

lemma groupedWrites_count:
  "length (groupedWrites q)
     = card ({''business_interactions'', ''visit_logs''} \<inter> table ` set q)"
proof -
  have "{''business_interactions'', ''visit_logs''} \<inter> table ` set q
      = (if filter (\<lambda>e. table e = ''business_interactions'') q = [] then {}
         else {''business_interactions''})
        \<union> (if filter (\<lambda>e. table e = ''visit_logs'') q = [] then {} else {''visit_logs''})"
    by (auto simp: filter_empty_conv intro: rev_image_eqI)
  then show ?thesis
    by (simp add: groupedWrites_def Let_def)
qed

lemma mixedBatch_eval:
  "mixedBatch = (init 0 [])\<lparr>eventQueue :=
     [Queued ''business_interactions'' [(''business_id'', JStr ''b1'')],
      Queued ''visit_logs'' [(''page_path'', JStr ''/a'')],
      Queued ''business_interactions'' [(''business_id'', JStr ''b2'')],
      Queued ''visit_logs'' [(''page_path'', JStr ''/b'')],
      Queued ''business_interactions'' [(''business_id'', JStr ''b3'')]],
     flushTimeout := Some 5, timers := [Timer 5 5000 None FlushEvents], nextTimerId := 6\<rparr>"
  by code_simp

lemma sendPing_sends:
  assumes "isTabActive s" "int (clock s) - int (lastActivity s) \<le> MIN_ACTIVITY_GAP"
    "isAnalyticsEnabled cfg" "analyticsClient cfg \<noteq> None"
  shows "sink (sendPing cfg d u c s)
     = sink s @ [Upsert ''live_users''
                   [(''device_id'', JStr d), (''user_name'', nullable u),
                    (''is_active'', JBool True), (''last_ping'', JTime (clock s))] ''device_id'']"
  using assms
  by (auto simp: sendPing_def safeAnalyticsOperation_def await_def sinkCall_def)

lemma fireTimer_ping:
  assumes f: "find (\<lambda>t. timer_id t = h) (timers s) = Some (Timer h dd p (PingClosure d u))"
    and due: "dd \<le> clock s"
    and gates: "isTabActive s" "int (clock s) - int (lastActivity s) \<le> MIN_ACTIVITY_GAP"
      "isAnalyticsEnabled cfg" "analyticsClient cfg \<noteq> None"
  shows "sink (fireTimer cfg h s)
     = sink s @ [Upsert ''live_users''
                   [(''device_id'', JStr d), (''user_name'', nullable u),
                    (''is_active'', JBool True), (''last_ping'', JTime (clock s))] ''device_id'']"
proof -
  have "sink (sendPing cfg d u None (s\<lparr>timers := ts\<rparr>))
      = sink s @ [Upsert ''live_users''
                   [(''device_id'', JStr d), (''user_name'', nullable u),
                    (''is_active'', JBool True), (''last_ping'', JTime (clock s))] ''device_id'']"
    for ts
    using sendPing_sends [of "s\<lparr>timers := ts\<rparr>" cfg d u None] gates by simp
  then show ?thesis
    using f due by (simp add: fireTimer_def Let_def split: option.splits)
qed

lemma tracking_eval:
  "tracking = (init 0 [(''jawala_device_id'', ''d1''), (''jawala_user_name'', ''bob'')])
     \<lparr>pingInterval := Some 1,
      timers := [Timer 1 20000 (Some 20000) (PingClosure ''d1'' (Some ''ann''))],
      nextTimerId := 2,
      unloadListeners := [(''d1'', Some ''ann'')],
      sink := [Upsert ''live_users'' [(''device_id'', JStr ''d1''), (''user_name'', JStr ''ann''),
                 (''is_active'', JBool True), (''last_ping'', JTime 0)] ''device_id'']\<rparr>"
  by (simp add: tracking_def ping_defs setUserName_def setItem_def)

subsection \<open>Teardown listeners\<close>

lemma run_append: "run cfg (xs @ ys) s = run cfg ys (run cfg xs s)"
  by (induction xs arbitrary: s) simp_all

lemma fold_unloadClosure_sink:
  assumes "isAnalyticsEnabled cfg" "analyticsClient cfg \<noteq> None"
  shows "sink (fold (unloadClosure cfg) cs s)
     = sink s @ map (\<lambda>c. Beacon (the (analyticsClient cfg) @ ''/rest/v1/live_users'')
                          [(''device_id'', JStr (fst c)), (''user_name'', nullable (snd c)),
                           (''is_active'', JBool False), (''last_ping'', JTime (clock s))]) cs"
proof (induction cs arbitrary: s)
  case Nil
  show ?case by simp
next
  case (Cons c cs)
  have "sink (unloadClosure cfg c s)
      = sink s @ [Beacon (the (analyticsClient cfg) @ ''/rest/v1/live_users'')
                    [(''device_id'', JStr (fst c)), (''user_name'', nullable (snd c)),
                     (''is_active'', JBool False), (''last_ping'', JTime (clock s))]]"
    using assms
    by (simp add: unloadClosure_def clearInterval_def sinkCall_def Let_def split: option.splits)
  then show ?case
    by (simp add: Cons.IH)
qed

lemma flushEvents_beacons: "filter isBeacon (sink (flushEvents cfg s)) = filter isBeacon (sink s)"
  by (simp add: flushEvents_def flushOperation_def flushVisitLogs_def safeAnalyticsOperation_def
      await_def sinkCall_def Let_def)

lemma startLiveTracking_beacons:
  "filter isBeacon (sink (startLiveTracking cfg s)) = filter isBeacon (sink s)"
  by (simp add: startLiveTracking_def split_def Let_def sendPing_def returnTo_def
      safeAnalyticsOperation_def await_def sinkCall_def split: option.splits)

lemma unload_beacons:
  assumes "isAnalyticsEnabled cfg" "analyticsClient cfg \<noteq> None"
  shows "length (filter isBeacon (sink (step cfg BeforeUnload s)))
     = length (filter isBeacon (sink s)) + length (unloadListeners s)"
  by (simp add: fold_unloadClosure_sink [OF assms] flushEvents_beacons o_def)

lemma one_live_call:
  assumes en: "isAnalyticsEnabled cfg" and p: "pending s = []"
  shows "pending (run cfg [StartLiveTracking, Resume 0 r] s) = []
       \<and> length (unloadListeners (run cfg [StartLiveTracking, Resume 0 r] s))
           = Suc (length (unloadListeners s))
       \<and> filter isBeacon (sink (run cfg [StartLiveTracking, Resume 0 r] s))
           = filter isBeacon (sink s)"
proof -
  obtain d u k where k: "liveTask d u k" "pending (startLiveTracking cfg s) = pending s @ [k]"
    using startLiveTracking_pending [OF en, of s] by blast
  have st: "run cfg [StartLiveTracking, Resume 0 r] s
      = resumeTask cfg k r ((startLiveTracking cfg s)\<lparr>pending := []\<rparr>)"
    by (simp add: k(2) p)
  show ?thesis
    unfolding st
    by (simp add: resume_liveTask(5,7,9) [OF k(1)] startLiveTracking_beacons)
qed

lemma live_calls:
  assumes en: "isAnalyticsEnabled cfg"
  shows "pending s = [] \<Longrightarrow>
         pending (run cfg (liveCalls k r) s) = []
       \<and> length (unloadListeners (run cfg (liveCalls k r) s)) = length (unloadListeners s) + k
       \<and> filter isBeacon (sink (run cfg (liveCalls k r) s)) = filter isBeacon (sink s)"
proof (induction k arbitrary: s)
  case 0
  then show ?case by (simp add: liveCalls_def)
next
  case (Suc k)
  let ?s1 = "run cfg [StartLiveTracking, Resume 0 r] s"
  note c = one_live_call [OF en Suc.prems, of r]
  have r: "run cfg (liveCalls (Suc k) r) s = run cfg (liveCalls k r) ?s1"
    by (simp add: liveCalls_def)
  from c have "pending ?s1 = []"
    by blast
  from Suc.IH [OF this] c show ?case
    unfolding r by simp
qed

lemma resumeTask_listeners:
  "\<exists>xs. unloadListeners (resumeTask cfg k r s) = unloadListeners s @ xs"
proof (cases k)
  case (PingUpsert c)
  then show ?thesis
    by (cases c) (auto simp: Let_def startLiveTracking_resume_timers split: prod.splits)
next
  case (StartLive d u)
  then show ?thesis by (simp add: startLiveTracking_resume_timers)
next
  case (VisitWrite m n d)
  then show ?thesis by (simp add: trackUserVisit_written_def Let_def)
qed simp_all

lemma fireTimer_listeners: "unloadListeners (fireTimer cfg h s) = unloadListeners s"
proof (cases "find (\<lambda>t. timer_id t = h) (timers s)")
  case None
  then show ?thesis by (simp add: fireTimer_def)
next
  case (Some t)
  then show ?thesis
    by (cases "callback t") (simp_all add: fireTimer_def Let_def split: option.splits)
qed

lemma fold_unloadClosure_listeners:
  "unloadListeners (fold (unloadClosure cfg) cs s) = unloadListeners s"
  by (induction cs arbitrary: s) simp_all

lemma step_listeners: "\<exists>xs. unloadListeners (step cfg e s) = unloadListeners s @ xs"
proof (cases e)
  case (TrackBusinessInteraction et b)
  then show ?thesis by (simp add: trackBusinessInteraction_def split_def Let_def)
next
  case InitializeTracking
  then show ?thesis
    by (simp add: initializeTracking_def safeAnalyticsOperation_def split_def Let_def
        await_def sinkCall_def)
next
  case (FireTimer h)
  then show ?thesis by (simp add: fireTimer_listeners)
next
  case (Resume n r)
  show ?thesis
  proof (cases "n < length (pending s)")
    case True
    with Resume show ?thesis
      using resumeTask_listeners [of cfg "pending s ! n" r
          "s\<lparr>pending := take n (pending s) @ drop (Suc n) (pending s)\<rparr>"]
      by simp
  next
    case False
    with Resume show ?thesis by simp
  qed
next
  case BeforeUnload
  then show ?thesis by (simp add: fold_unloadClosure_listeners)
qed (simp_all add: Let_def)

lemma setUserName_pending:
  "(setUserName n s)\<lparr>pending := p\<rparr> = setUserName n (s\<lparr>pending := p\<rparr>)"
  by (cases s) (simp add: setUserName_def setItem_def)

subsection \<open>A flush with enqueues in flight\<close>

lemma flushEvents_started:
  assumes "isAnalyticsEnabled cfg" "analyticsClient cfg \<noteq> None"
  shows "sink (flushEvents cfg s) = sink s @ take 1 (groupedWrites (eventQueue s))"
    and "pending (flushEvents cfg s) = pending s @ flushTasks (eventQueue s)"
  using flushEvents_start [OF assms, of s] by (simp_all add: flushTasks_def Let_def)

lemma queueEvent_extends:
  "\<exists>xs ys. sink (queueEvent cfg t d s) = sink s @ xs \<and> pending (queueEvent cfg t d s) = pending s @ ys"
  by (simp add: queueEvent_def Let_def flushEvents_def flushOperation_def flushVisitLogs_def
      safeAnalyticsOperation_def await_def sinkCall_def)

lemma enqueueAll_extends:
  "\<exists>xs ys. sink (enqueueAll cfg evs s) = sink s @ xs \<and> pending (enqueueAll cfg evs s) = pending s @ ys"
proof (induction evs arbitrary: s)
  case Nil
  show ?case by (simp add: enqueueAll_def)
next
  case (Cons e evs)
  let ?s1 = "queueEvent cfg (table e) (data e) s"
  obtain xs ys where a: "sink ?s1 = sink s @ xs" "pending ?s1 = pending s @ ys"
    using queueEvent_extends by blast
  obtain xs' ys' where b: "sink (enqueueAll cfg evs ?s1) = sink ?s1 @ xs'"
    "pending (enqueueAll cfg evs ?s1) = pending ?s1 @ ys'"
    using Cons.IH by blast
  have "enqueueAll cfg (e # evs) s = enqueueAll cfg evs ?s1"
    by (simp add: enqueueAll_def)
  then show ?case
    using a b by simp
qed

lemma resume_flushTasks:
  assumes cl: "analyticsClient cfg \<noteq> None" and k: "k \<in> set (flushTasks q)"
  shows "sink (resumeTask cfg k r s) = sink s @ drop 1 (groupedWrites q)"
    and "eventQueue (resumeTask cfg k r s) = eventQueue s"
  using cl k
  by (auto simp: flushTasks_def groupedWrites_def Let_def flushVisitLogs_def await_def sinkCall_def
      split: if_splits)

lemma resume_in_flight:
  assumes en: "isAnalyticsEnabled cfg" and cl: "analyticsClient cfg \<noteq> None"
    and t: "flushTasks (eventQueue s) \<noteq> []"
  shows "sink (step cfg (Resume (length (pending s)) r) (enqueueAll cfg evs (flushEvents cfg s)))
           = sink (enqueueAll cfg evs (flushEvents cfg s)) @ drop 1 (groupedWrites (eventQueue s))"
    and "eventQueue (step cfg (Resume (length (pending s)) r) (enqueueAll cfg evs (flushEvents cfg s)))
           = eventQueue (enqueueAll cfg evs (flushEvents cfg s))"
proof -
  define s2 where "s2 = enqueueAll cfg evs (flushEvents cfg s)"
  define n where "n = length (pending s)"
  obtain k where k: "flushTasks (eventQueue s) = [k]"
    using t by (auto simp: flushTasks_def Let_def split: if_splits)
  obtain ys where "pending s2 = pending (flushEvents cfg s) @ ys"
    unfolding s2_def using enqueueAll_extends by blast
  then have p: "pending s2 = pending s @ k # ys"
    by (simp add: flushEvents_started(2) [OF en cl] k)
  have lt: "n < length (pending s2)" and nth: "pending s2 ! n = k"
    by (simp_all add: p n_def)
  have st: "step cfg (Resume n r) s2
      = resumeTask cfg k r (s2\<lparr>pending := take n (pending s2) @ drop (Suc n) (pending s2)\<rparr>)"
    using lt nth by simp
  have kin: "k \<in> set (flushTasks (eventQueue s))"
    by (simp add: k)
  show "sink (step cfg (Resume (length (pending s)) r) (enqueueAll cfg evs (flushEvents cfg s)))
      = sink (enqueueAll cfg evs (flushEvents cfg s)) @ drop 1 (groupedWrites (eventQueue s))"
    unfolding s2_def [symmetric] n_def [symmetric] st
    by (simp add: resume_flushTasks(1) [OF cl kin])
  show "eventQueue (step cfg (Resume (length (pending s)) r) (enqueueAll cfg evs (flushEvents cfg s)))
      = eventQueue (enqueueAll cfg evs (flushEvents cfg s))"
    unfolding s2_def [symmetric] n_def [symmetric] st
    by (simp add: resume_flushTasks(2) [OF cl kin])
qed

lemma started_accounts_batch:
  assumes "list_all (\<lambda>e. table e = ''business_interactions'' \<or> table e = ''visit_logs'') q"
  shows "mset (concat (map captured (flushTasks q)))
       + mset (concat (map inserted (take 1 (groupedWrites q)))) = mset (map data q)"
proof -
  let ?bi = "filter (\<lambda>e. table e = ''business_interactions'') q"
  let ?vl = "filter (\<lambda>e. table e = ''visit_logs'') q"
  have part: "mset (map data ?bi) + mset (map data ?vl) = mset (map data q)"
    using assms by (intro partition_mset) (auto simp: list_all_iff)
  have lhs: "mset (concat (map captured (flushTasks q)))
      + mset (concat (map inserted (take 1 (groupedWrites q))))
      = mset (map data ?bi) + mset (map data ?vl)"
    by (cases "?bi = []"; cases "?vl = []")
       (simp_all add: flushTasks_def groupedWrites_def Let_def add.commute)
  show ?thesis
    by (simp only: lhs part)
qed

lemma flushEvents_accounted:
  assumes en: "isAnalyticsEnabled cfg" and cl: "analyticsClient cfg \<noteq> None"
    and t: "tables_inv s"
  shows "accounted (flushEvents cfg s) = accounted s"
proof -
  have "mset (concat (map captured (flushTasks (eventQueue s))))
      + mset (concat (map inserted (take 1 (groupedWrites (eventQueue s)))))
      = mset (map data (eventQueue s))"
    using t by (intro started_accounts_batch) (simp add: tables_inv_def)
  then show ?thesis
    by (simp add: accounted_def flushEvents_started [OF en cl] flushEvents_queue en
        add.assoc add.left_commute)
qed

lemma queueEvent_accounted:
  assumes en: "isAnalyticsEnabled cfg" and cl: "analyticsClient cfg \<noteq> None"
    and t: "tables_inv s" and v: "tbl = ''business_interactions'' \<or> tbl = ''visit_logs''"
  shows "accounted (queueEvent cfg tbl dat s) = accounted s + {#dat#}"
proof -
  let ?s1 = "s\<lparr>eventQueue := eventQueue s @ [Queued tbl dat]\<rparr>"
  have a1: "accounted ?s1 = accounted s + {#dat#}"
    by (simp add: accounted_def)
  have t1: "tables_inv ?s1"
    using t v by (auto simp: tables_inv_def)
  have "accounted (flushEvents cfg ?s1) = accounted ?s1"
    using en cl t1 by (rule flushEvents_accounted)
  moreover have "accounted (scheduleFlush ?s1) = accounted ?s1"
    by (simp add: accounted_def)
  ultimately show ?thesis
    using en a1 by (simp add: queueEvent_def Let_def)
qed

lemma enqueueAll_accounted:
  assumes en: "isAnalyticsEnabled cfg" and cl: "analyticsClient cfg \<noteq> None"
  shows "tables_inv s \<Longrightarrow>
         list_all (\<lambda>e. table e = ''business_interactions'' \<or> table e = ''visit_logs'') evs \<Longrightarrow>
         accounted (enqueueAll cfg evs s) = accounted s + mset (map data evs)"
proof (induction evs arbitrary: s)
  case Nil
  show ?case by (simp add: enqueueAll_def)
next
  case (Cons e evs)
  let ?s1 = "queueEvent cfg (table e) (data e) s"
  have v: "table e = ''business_interactions'' \<or> table e = ''visit_logs''"
    using Cons.prems(2) by simp
  have a: "accounted ?s1 = accounted s + {#data e#}"
    using en cl Cons.prems(1) v by (rule queueEvent_accounted)
  have t: "tables_inv ?s1"
    using Cons.prems(1) v by (rule queueEvent_tables_inv)
  have r: "list_all (\<lambda>e. table e = ''business_interactions'' \<or> table e = ''visit_logs'') evs"
    using Cons.prems(2) by simp
  have "enqueueAll cfg (e # evs) s = enqueueAll cfg evs ?s1"
    by (simp add: enqueueAll_def)
  then show ?case
    using Cons.IH [OF t r] a by simp
qed

lemma concat_without_nth:
  "i < length ps \<Longrightarrow>
   mset (concat (map f (take i ps @ drop (Suc i) ps))) + mset (f (ps ! i)) = mset (concat (map f ps))"
proof -
  assume "i < length ps"
  then have "ps = take i ps @ ps ! i # drop (Suc i) ps"
    by (rule id_take_nth_drop)
  then have "mset (concat (map f ps))
      = mset (concat (map f (take i ps @ ps ! i # drop (Suc i) ps)))"
    by simp
  then show ?thesis
    by simp
qed

lemma resume_accounted:
  assumes cl: "analyticsClient cfg \<noteq> None"
    and i: "i < length (pending s)" and k: "isFlushTask (pending s ! i)"
  shows "accounted (step cfg (Resume i r) s) = accounted s"
proof -
  let ?rest = "take i (pending s) @ drop (Suc i) (pending s)"
  note c = concat_without_nth [OF i, of captured]
  show ?thesis
  proof (cases "pending s ! i")
    case (FlushInteractions vl)
    show ?thesis
    proof (cases "vl = []")
      case True
      with FlushInteractions show ?thesis
        using cl i c by (simp add: accounted_def flushVisitLogs_def)
    next
      case False
      with FlushInteractions show ?thesis
        using cl i c
        by (simp add: accounted_def flushVisitLogs_def await_def sinkCall_def add.assoc
            add.left_commute)
    qed
  next
    case FlushVisits
    then show ?thesis
      using i c by (simp add: accounted_def)
  qed (use k in simp_all)
qed

lemma queueEvent_queue:
  assumes "isAnalyticsEnabled cfg"
  shows "eventQueue (queueEvent cfg t d s)
     = (if MAX_QUEUE_SIZE \<le> length (eventQueue s) + 1 then [] else eventQueue s @ [Queued t d])"
  using assms by (simp add: queueEvent_def Let_def flushEvents_queue)

lemma enqueueAll_queue:
  assumes en: "isAnalyticsEnabled cfg" and e: "eventQueue s = []"
  shows "eventQueue (enqueueAll cfg evs s)
     = drop (length evs - length evs mod MAX_QUEUE_SIZE) evs"
proof (induction evs rule: rev_induct)
  case Nil
  show ?case by (simp add: enqueueAll_def e)
next
  case (snoc x evs)
  let ?L = "length evs"
  have sn: "enqueueAll cfg (evs @ [x]) s = queueEvent cfg (table x) (data x) (enqueueAll cfg evs s)"
    by (simp add: enqueueAll_def)
  have len: "length (eventQueue (enqueueAll cfg evs s)) = ?L mod 10"
    using snoc.IH by (simp add: MAX_QUEUE_SIZE_def)
  show ?case
  proof (cases "?L mod 10 = 9")
    case True
    then have "Suc ?L mod 10 = 0"
      by (simp add: mod_Suc)
    then show ?thesis
      using True by (simp add: sn queueEvent_queue [OF en] len MAX_QUEUE_SIZE_def)
  next
    case False
    have lt: "?L mod 10 < 9"
      using False by (simp add: le_neq_implies_less less_Suc_eq_le [symmetric])
    then have m: "Suc ?L mod 10 = Suc (?L mod 10)"
      by (simp add: mod_Suc)
    have d: "Suc ?L - Suc (?L mod 10) = ?L - ?L mod 10"
      by simp
    show ?thesis
      using lt snoc.IH
      by (simp add: sn queueEvent_queue [OF en] len MAX_QUEUE_SIZE_def m)
  qed
qed

lemma busy_eval:
  "eventQueue busy = replicate 2 (Queued ''business_interactions'' [(''business_id'', JStr ''b9'')])
   \<and> pending busy = [FlushInteractions
        [Queued ''visit_logs'' [(''page_path'', JStr ''/a'')],
         Queued ''visit_logs'' [(''page_path'', JStr ''/b'')]], FlushInteractions []]
   \<and> sink busy = [Insert ''business_interactions''
             [[(''business_id'', JStr ''b1'')], [(''business_id'', JStr ''b2'')],
              [(''business_id'', JStr ''b3'')]],
           Insert ''business_interactions'' (replicate 10 [(''business_id'', JStr ''b9'')])]"
  by code_simp

section \<open>The claims\<close>

text \<open>
  C1. With analytics enabled, an enqueue that brings the queue to \<open>MAX_QUEUE_SIZE\<close> (10)
  calls \<^verbatim>\<open>flushEvents\<close> inside that same call, on the queue that now holds the new
  event, and returns with the queue empty. Hence after any non-empty run of enqueues
  from any state, and in every state the event loop reaches from the loaded module, the
  queue is shorter than the maximum.
\<close>

theorem queue_flushed_on_reaching_max:
  assumes "isAnalyticsEnabled cfg"
  shows "(MAX_QUEUE_SIZE \<le> length (eventQueue s) + 1 \<longrightarrow>
            queueEvent cfg tbl dat s
              = flushEvents cfg (s\<lparr>eventQueue := eventQueue s @ [Queued tbl dat]\<rparr>)
            \<and> eventQueue (queueEvent cfg tbl dat s) = [])
       \<and> (evs \<noteq> [] \<longrightarrow> length (eventQueue (enqueueAll cfg evs s)) < MAX_QUEUE_SIZE)
       \<and> length (eventQueue (run cfg es (init t0 ls))) < MAX_QUEUE_SIZE"
proof (intro conjI impI)
  assume full: "MAX_QUEUE_SIZE \<le> length (eventQueue s) + 1"
  then show "queueEvent cfg tbl dat s
      = flushEvents cfg (s\<lparr>eventQueue := eventQueue s @ [Queued tbl dat]\<rparr>)"
    using assms by (simp add: queueEvent_def Let_def)
  then show "eventQueue (queueEvent cfg tbl dat s) = []"
    using assms by (simp add: flushEvents_queue)
next
  assume "evs \<noteq> []"
  then obtain e evs' where evs: "evs = evs' @ [e]"
    by (metis rev_exhaust)
  show "length (eventQueue (enqueueAll cfg evs s)) < MAX_QUEUE_SIZE"
    using assms by (simp add: evs enqueueAll_def queueEvent_length)
next
  have "queue_inv (run cfg es (init t0 ls))"
    by (rule run_queue_inv) (rule init_queue_inv)
  then show "length (eventQueue (run cfg es (init t0 ls))) < MAX_QUEUE_SIZE"
    by (simp add: queue_inv_def)
qed

theorem queue_flushed_on_reaching_max_witness:
  "isAnalyticsEnabled cfg0
   \<and> length (eventQueue nineQueued) = 9
   \<and> eventQueue (queueEvent cfg0 ''visit_logs'' [] nineQueued) = []
   \<and> length (eventQueue (enqueueAll cfg0 [Queued ''visit_logs'' []] nineQueued)) < MAX_QUEUE_SIZE
   \<and> length (eventQueue (run cfg0 [TrackBusinessInteraction View ''b1''] (init 0 []))) < MAX_QUEUE_SIZE"
proof -
  have en: "isAnalyticsEnabled cfg0"
    by (simp add: cfg0_def)
  have nine: "length (eventQueue nineQueued) = 9"
    by (simp add: nineQueued_eval init_def)
  note inst = queue_flushed_on_reaching_max [OF en,
      of nineQueued "''visit_logs''" "[]" "[Queued ''visit_logs'' []]"
         "[TrackBusinessInteraction View ''b1'']" 0 "[]"]
  have full: "MAX_QUEUE_SIZE \<le> length (eventQueue nineQueued) + 1"
    by (simp add: nine MAX_QUEUE_SIZE_def)
  have ne: "[Queued ''visit_logs'' []] \<noteq> []"
    by simp
  from inst full have "eventQueue (queueEvent cfg0 ''visit_logs'' [] nineQueued) = []"
    by blast
  moreover from inst ne
  have "length (eventQueue (enqueueAll cfg0 [Queued ''visit_logs'' []] nineQueued)) < MAX_QUEUE_SIZE"
    by blast
  moreover from inst
  have "length (eventQueue (run cfg0 [TrackBusinessInteraction View ''b1''] (init 0 []))) < MAX_QUEUE_SIZE"
    by blast
  ultimately show ?thesis
    using en nine by blast
qed

text \<open>
  C2. \<^verbatim>\<open>flushEvents\<close> on a non-empty queue is the sending operation applied to the
  captured queue in the state whose queue is already empty, and it returns with the queue
  empty, the first grouped write issued and the rest of the flush suspended right after
  the calls already suspended. Whatever is enqueued while the flush is in flight, however
  many events, what the flush has sent and its suspended call stay where they are; the
  suspended call, resumed in any state, sends the remaining grouped write of the captured
  queue and leaves the queue as it finds it, and the wait for the visits insert sends
  nothing more. So the flush sends the grouped writes of the queue it captured and
  nothing else, and when the batch holds only the two tables (as it does in every
  reachable state) their rows are exactly the payloads captured. The events enqueued in
  flight form batches of their own: the queue holds those after the last full ten, and
  every payload stays accounted for (queued, held by a suspended flush, or inserted)
  through the enqueues and through every resumed flush. On an empty queue
  \<^verbatim>\<open>flushEvents\<close> returns the state it was given. The witness enqueues twelve events
  while the flush of three interactions and two visits is in flight.
\<close>

theorem flush_swaps_before_sending:
  assumes "isAnalyticsEnabled cfg" and "analyticsClient cfg \<noteq> None"
  shows "flushEvents cfg s
           = (if eventQueue s = [] then s
              else flushOperation cfg (eventQueue s) (s\<lparr>eventQueue := []\<rparr>))
       \<and> eventQueue (flushEvents cfg s) = []
       \<and> sink (flushEvents cfg s) = sink s @ take 1 (groupedWrites (eventQueue s))
       \<and> pending (flushEvents cfg s) = pending s @ flushTasks (eventQueue s)
       \<and> take (length (sink (flushEvents cfg s))) (sink (enqueueAll cfg evs (flushEvents cfg s)))
           = sink (flushEvents cfg s)
       \<and> take (length (pending (flushEvents cfg s)))
            (pending (enqueueAll cfg evs (flushEvents cfg s)))
           = pending (flushEvents cfg s)
       \<and> (\<forall>k\<in>set (flushTasks (eventQueue s)).
            sink (resumeTask cfg k r s') = sink s' @ drop 1 (groupedWrites (eventQueue s))
            \<and> eventQueue (resumeTask cfg k r s') = eventQueue s')
       \<and> sink (resumeTask cfg FlushVisits r s') = sink s'
       \<and> eventQueue (resumeTask cfg FlushVisits r s') = eventQueue s'
       \<and> (flushTasks (eventQueue s) \<noteq> [] \<longrightarrow>
            sink (step cfg (Resume (length (pending s)) r)
                   (enqueueAll cfg evs (flushEvents cfg s)))
              = sink (enqueueAll cfg evs (flushEvents cfg s))
                @ drop 1 (groupedWrites (eventQueue s))
            \<and> eventQueue (step cfg (Resume (length (pending s)) r)
                             (enqueueAll cfg evs (flushEvents cfg s)))
                = eventQueue (enqueueAll cfg evs (flushEvents cfg s)))
       \<and> (tables_inv s \<longrightarrow>
            mset (concat (map inserted (groupedWrites (eventQueue s))))
              = mset (map data (eventQueue s)))
       \<and> eventQueue (enqueueAll cfg evs (flushEvents cfg s))
           = drop (length evs - length evs mod MAX_QUEUE_SIZE) evs
       \<and> (list_all (\<lambda>e. table e = ''business_interactions'' \<or> table e = ''visit_logs'') evs \<longrightarrow>
            accounted (enqueueAll cfg evs (flushEvents cfg s))
              = accounted (flushEvents cfg s) + mset (map data evs))
       \<and> (i < length (pending s') \<and> isFlushTask (pending s' ! i) \<longrightarrow>
            accounted (step cfg (Resume i r) s') = accounted s')
       \<and> tables_inv (run cfg es (init t0 ls))
       \<and> (eventQueue s = [] \<longrightarrow> flushEvents cfg s = s)"
proof -
  let ?s1 = "flushEvents cfg s"
  have f: "flushEvents cfg s
      = (if eventQueue s = [] then s
         else flushOperation cfg (eventQueue s) (s\<lparr>eventQueue := []\<rparr>))"
    using assms(1) by (simp add: flushEvents_def safeAnalyticsOperation_def Let_def)
  have q: "eventQueue ?s1 = []"
    using assms(1) by (simp add: flushEvents_queue)
  note st = flushEvents_started [OF assms, of s]
  obtain xs ys where x: "sink (enqueueAll cfg evs ?s1) = sink ?s1 @ xs"
    "pending (enqueueAll cfg evs ?s1) = pending ?s1 @ ys"
    using enqueueAll_extends by blast
  have pre: "take (length (sink ?s1)) (sink (enqueueAll cfg evs ?s1)) = sink ?s1"
    "take (length (pending ?s1)) (pending (enqueueAll cfg evs ?s1)) = pending ?s1"
    by (simp_all add: x)
  have res: "\<forall>k\<in>set (flushTasks (eventQueue s)).
      sink (resumeTask cfg k r s') = sink s' @ drop 1 (groupedWrites (eventQueue s))
      \<and> eventQueue (resumeTask cfg k r s') = eventQueue s'"
    using resume_flushTasks [OF assms(2)] by blast
  have vis: "sink (resumeTask cfg FlushVisits r s') = sink s'"
    "eventQueue (resumeTask cfg FlushVisits r s') = eventQueue s'"
    by simp_all
  have fl: "sink (step cfg (Resume (length (pending s)) r) (enqueueAll cfg evs ?s1))
        = sink (enqueueAll cfg evs ?s1) @ drop 1 (groupedWrites (eventQueue s))
      \<and> eventQueue (step cfg (Resume (length (pending s)) r) (enqueueAll cfg evs ?s1))
          = eventQueue (enqueueAll cfg evs ?s1)"
    if "flushTasks (eventQueue s) \<noteq> []"
    using resume_in_flight [OF assms that] by blast
  have rows: "mset (concat (map inserted (groupedWrites (eventQueue s))))
      = mset (map data (eventQueue s))" if "tables_inv s"
    using that by (simp add: groupedWrites_rows tables_inv_def)
  have nq: "eventQueue (enqueueAll cfg evs ?s1)
      = drop (length evs - length evs mod MAX_QUEUE_SIZE) evs"
    using assms(1) q by (rule enqueueAll_queue)
  have t1: "tables_inv ?s1"
    by (simp add: tables_inv_def q)
  have acc: "accounted (enqueueAll cfg evs ?s1) = accounted ?s1 + mset (map data evs)"
    if "list_all (\<lambda>e. table e = ''business_interactions'' \<or> table e = ''visit_logs'') evs"
    using enqueueAll_accounted [OF assms t1 that] .
  have racc: "accounted (step cfg (Resume i r) s') = accounted s'"
    if "i < length (pending s') \<and> isFlushTask (pending s' ! i)"
    using resume_accounted [OF assms(2), of i s' r] that by blast
  have t: "tables_inv (run cfg es (init t0 ls))"
    by (rule run_tables_inv) (rule init_tables_inv)
  have e: "flushEvents cfg s = s" if "eventQueue s = []"
    using that by (simp add: flushEvents_def)
  show ?thesis
    using f q st pre res vis fl rows nq acc racc t e by blast
qed

theorem flush_swaps_before_sending_witness:
  "isAnalyticsEnabled cfg0 \<and> analyticsClient cfg0 \<noteq> None \<and> tables_inv mixedBatch
   \<and> flushTasks (eventQueue mixedBatch)
       = [FlushInteractions [Queued ''visit_logs'' [(''page_path'', JStr ''/a'')],
                             Queued ''visit_logs'' [(''page_path'', JStr ''/b'')]]]
   \<and> eventQueue busy
       = replicate 2 (Queued ''business_interactions'' [(''business_id'', JStr ''b9'')])
   \<and> sink (step cfg0 (Resume 0 ok) busy)
       = [Insert ''business_interactions''
            [[(''business_id'', JStr ''b1'')], [(''business_id'', JStr ''b2'')],
             [(''business_id'', JStr ''b3'')]],
          Insert ''business_interactions'' (replicate 10 [(''business_id'', JStr ''b9'')]),
          Insert ''visit_logs'' [[(''page_path'', JStr ''/a'')], [(''page_path'', JStr ''/b'')]]]
   \<and> eventQueue (step cfg0 (Resume 0 ok) busy) = eventQueue busy
   \<and> mset (concat (map inserted (groupedWrites (eventQueue mixedBatch))))
       = mset (map data (eventQueue mixedBatch))
   \<and> accounted busy
       = accounted (flushEvents cfg0 mixedBatch)
         + mset (replicate 12 [(''business_id'', JStr ''b9'')])
   \<and> accounted (step cfg0 (Resume 0 ok) busy) = accounted busy
   \<and> flushEvents cfg0 (init 0 []) = init 0 []"
proof -
  let ?evs = "replicate 12 (Queued ''business_interactions'' [(''business_id'', JStr ''b9'')])"
  let ?k = "FlushInteractions [Queued ''visit_logs'' [(''page_path'', JStr ''/a'')],
                               Queued ''visit_logs'' [(''page_path'', JStr ''/b'')]]"
  have en: "isAnalyticsEnabled cfg0" and cl: "analyticsClient cfg0 \<noteq> None"
    by (simp_all add: cfg0_def)
  have ti: "tables_inv mixedBatch"
    by (simp add: mixedBatch_eval init_def tables_inv_def)
  have ft: "flushTasks (eventQueue mixedBatch) = [?k]"
    by (simp add: mixedBatch_eval init_def flushTasks_def)
  have gw: "groupedWrites (eventQueue mixedBatch)
      = [Insert ''business_interactions''
            [[(''business_id'', JStr ''b1'')], [(''business_id'', JStr ''b2'')],
             [(''business_id'', JStr ''b3'')]],
         Insert ''visit_logs'' [[(''page_path'', JStr ''/a'')], [(''page_path'', JStr ''/b'')]]]"
    by (simp add: mixedBatch_eval init_def groupedWrites_def)
  have p0: "length (pending mixedBatch) = 0"
    by (simp add: mixedBatch_eval init_def)
  have valid: "list_all (\<lambda>e. table e = ''business_interactions'' \<or> table e = ''visit_logs'') ?evs"
    by (simp add: list_all_iff)
  have task: "0 < length (pending busy) \<and> isFlushTask (pending busy ! 0)"
    by (simp add: busy_eval)
  note inst = flush_swaps_before_sending [OF en cl, of mixedBatch ?evs ok busy 0 "[]" 0 "[]",
      folded busy_def, unfolded p0]
  have ne: "flushTasks (eventQueue mixedBatch) \<noteq> []"
    by (simp add: ft)
  from inst ne have r: "sink (step cfg0 (Resume 0 ok) busy)
        = sink busy @ drop 1 (groupedWrites (eventQueue mixedBatch))"
    "eventQueue (step cfg0 (Resume 0 ok) busy) = eventQueue busy"
    by blast+
  have r1: "sink (step cfg0 (Resume 0 ok) busy)
       = [Insert ''business_interactions''
            [[(''business_id'', JStr ''b1'')], [(''business_id'', JStr ''b2'')],
             [(''business_id'', JStr ''b3'')]],
          Insert ''business_interactions'' (replicate 10 [(''business_id'', JStr ''b9'')]),
          Insert ''visit_logs'' [[(''page_path'', JStr ''/a'')], [(''page_path'', JStr ''/b'')]]]"
    by (simp only: r(1)) (simp add: gw busy_eval)
  from inst have "eventQueue busy = drop (length ?evs - length ?evs mod MAX_QUEUE_SIZE) ?evs"
    by blast
  then have qb: "eventQueue busy
      = replicate 2 (Queued ''business_interactions'' [(''business_id'', JStr ''b9'')])"
    by (simp add: MAX_QUEUE_SIZE_def)
  from inst ti have rows: "mset (concat (map inserted (groupedWrites (eventQueue mixedBatch))))
       = mset (map data (eventQueue mixedBatch))"
    by blast
  from inst valid have "accounted busy = accounted (flushEvents cfg0 mixedBatch) + mset (map data ?evs)"
    by blast
  then have acc: "accounted busy
       = accounted (flushEvents cfg0 mixedBatch)
         + mset (replicate 12 [(''business_id'', JStr ''b9'')])"
    by simp
  from inst task have racc: "accounted (step cfg0 (Resume 0 ok) busy) = accounted busy"
    by blast
  have e: "eventQueue (init 0 []) = []"
    by (simp add: init_def)
  from flush_swaps_before_sending [OF en cl, of "init 0 []" "[]" ok busy 0 "[]" 0 "[]"] e
  have z: "flushEvents cfg0 (init 0 []) = init 0 []"
    by blast
  show ?thesis
    using en cl ti ft qb r1 r(2) rows acc racc z by blast
qed

text \<open>
  C3, as stated, fails: an enqueue made while nine events are queued (a length below 10)
  brings the queue to ten and flushes at once, and the timer is left as it was.
\<close>

theorem flush_at_nine_queued_counterexample:
  "isAnalyticsEnabled cfg0
   \<and> length (eventQueue nineQueued) < MAX_QUEUE_SIZE
   \<and> sink nineQueued = []
   \<and> sink (queueEvent cfg0 ''visit_logs'' [] nineQueued)
        = [Insert ''visit_logs'' (replicate 10 [])]
   \<and> eventQueue (queueEvent cfg0 ''visit_logs'' [] nineQueued) = []
   \<and> flushTimeout (queueEvent cfg0 ''visit_logs'' [] nineQueued) = flushTimeout nineQueued"
  by (simp add: nineQueued_eval eval_defs numeral_eq_Suc)

text \<open>
  C3, amended. With analytics enabled, an enqueue that leaves the queue shorter than 10
  (at most eight events queued before it) flushes nothing: the event is appended and no
  sink call or suspended call is added. It cancels the timer whose handle
  \<^verbatim>\<open>flushTimeout\<close> holds and sets a new one due \<open>FLUSH_INTERVAL\<close> (5000) after the
  clock; in a state satisfying the timer invariant that new timer is the only flush timer
  left, and it does not fire before it is due. In every reachable state at most one
  flush timer is live. The witness is the burst at times 0, 1000 and 2000: the one timer
  is due at 7000, firing it at 5000 does nothing, firing it at 7000 sends the three
  events.
\<close>

theorem enqueue_below_max_debounces:
  assumes "isAnalyticsEnabled cfg" and "length (eventQueue s) + 1 < MAX_QUEUE_SIZE"
  shows "eventQueue (queueEvent cfg tbl dat s) = eventQueue s @ [Queued tbl dat]
       \<and> sink (queueEvent cfg tbl dat s) = sink s
       \<and> pending (queueEvent cfg tbl dat s) = pending s
       \<and> flushTimeout (queueEvent cfg tbl dat s) = Some (nextTimerId s)
       \<and> timers (queueEvent cfg tbl dat s)
           = filter (\<lambda>t. Some (timer_id t) \<noteq> flushTimeout s) (timers s)
               @ [Timer (nextTimerId s) (clock s + FLUSH_INTERVAL) None FlushEvents]
       \<and> (timer_inv s \<longrightarrow>
            filter isFlushTimer (timers (queueEvent cfg tbl dat s))
              = [Timer (nextTimerId s) (clock s + FLUSH_INTERVAL) None FlushEvents])
       \<and> (clock s' < clock s + FLUSH_INTERVAL
              \<and> timers s' = timers (queueEvent cfg tbl dat s) \<and> timer_inv s \<longrightarrow>
            fireTimer cfg (nextTimerId s) s' = s')
       \<and> length (filter isFlushTimer (timers (run cfg es (init t0 ls)))) \<le> 1"
proof -
  let ?s1 = "s\<lparr>eventQueue := eventQueue s @ [Queued tbl dat]\<rparr>"
  let ?new = "Timer (nextTimerId s) (clock s + FLUSH_INTERVAL) None FlushEvents"
  have q: "queueEvent cfg tbl dat s = scheduleFlush ?s1"
    using assms by (simp add: queueEvent_def Let_def)
  have t: "timers (queueEvent cfg tbl dat s)
      = filter (\<lambda>t. Some (timer_id t) \<noteq> flushTimeout s) (timers s) @ [?new]"
    by (simp add: q scheduleFlush_timers)
  have old: "filter isFlushTimer (filter (\<lambda>t. Some (timer_id t) \<noteq> flushTimeout s) (timers s)) = []"
    if "timer_inv s"
    using that by (auto simp: timer_inv_def list_all_iff isFlushTimer_def filter_empty_conv)
  have only: "filter isFlushTimer (timers (queueEvent cfg tbl dat s)) = [?new]" if "timer_inv s"
    using old [OF that] by (simp add: t isFlushTimer_def)
  have early: "fireTimer cfg (nextTimerId s) s' = s'"
    if "clock s' < clock s + FLUSH_INTERVAL" "timers s' = timers (queueEvent cfg tbl dat s)"
      "timer_inv s"
  proof -
    have "\<forall>x\<in>set (timers s). timer_id x \<noteq> nextTimerId s"
      using that(3) by (auto simp: timer_inv_def list_all_iff)
    then have "find (\<lambda>x. timer_id x = nextTimerId s)
        (filter (\<lambda>t. Some (timer_id t) \<noteq> flushTimeout s) (timers s)) = None"
      by (simp add: find_None_iff)
    then have "find (\<lambda>x. timer_id x = nextTimerId s) (timers s') = Some ?new"
      by (simp add: that(2) t find_append_cases)
    then show ?thesis
      using that(1) by (simp add: fireTimer_def)
  qed
  have "timer_inv (run cfg es (init t0 ls))"
    by (rule run_timer_inv) (rule init_timer_inv)
  then have one: "length (filter isFlushTimer (timers (run cfg es (init t0 ls)))) \<le> 1"
    by (rule timer_inv_one_flush)
  show ?thesis
    using t only early one by (simp add: q scheduleFlush_timers)
qed

theorem enqueue_below_max_debounces_witness:
  "isAnalyticsEnabled cfg0
   \<and> length (eventQueue burst2) + 1 < MAX_QUEUE_SIZE
   \<and> timer_inv burst2
   \<and> clock burst2 = 2000
   \<and> timers burst2 = [Timer 2 6000 None FlushEvents]
   \<and> timers burst = [Timer 3 7000 None FlushEvents]
   \<and> filter isFlushTimer (timers burst) = [Timer 3 7000 None FlushEvents]
   \<and> sink burst = []
   \<and> fireTimer cfg0 3 (step cfg0 (Elapse 3000) burst) = step cfg0 (Elapse 3000) burst
   \<and> sink (fireTimer cfg0 3 (step cfg0 (Elapse 5000) burst))
       = [Insert ''business_interactions''
            [[(''event_type'', JStr ''view'')], [(''event_type'', JStr ''call'')],
             [(''event_type'', JStr ''share'')]]]
   \<and> eventQueue (fireTimer cfg0 3 (step cfg0 (Elapse 5000) burst)) = []"
proof -
  have en: "isAnalyticsEnabled cfg0"
    by (simp add: cfg0_def)
  have below: "length (eventQueue burst2) + 1 < MAX_QUEUE_SIZE"
    by (simp add: burst2_eval init_def MAX_QUEUE_SIZE_def)
  have inv: "timer_inv burst2"
    by (simp add: burst2_eval init_def timer_inv_def)
  note inst = enqueue_below_max_debounces [OF en below,
      of "''business_interactions''" "[(''event_type'', JStr ''share'')]"
         "step cfg0 (Elapse 3000) burst" "[]" 0 "[]", folded burst_def]
  have t: "timers burst = [Timer 3 7000 None FlushEvents]"
    using inst by (simp add: burst2_eval init_def FLUSH_INTERVAL_def)
  have only: "filter isFlushTimer (timers burst) = [Timer 3 7000 None FlushEvents]"
    using inst inv by (simp add: burst2_eval init_def FLUSH_INTERVAL_def isFlushTimer_def)
  have q: "eventQueue burst =
      [Queued ''business_interactions'' [(''event_type'', JStr ''view'')],
       Queued ''business_interactions'' [(''event_type'', JStr ''call'')],
       Queued ''business_interactions'' [(''event_type'', JStr ''share'')]]"
    using inst by (simp add: burst2_eval init_def)
  have s: "sink burst = []"
    using inst by (simp add: burst2_eval init_def)
  have c: "clock burst = 2000"
    by (simp add: burst_def burst2_eval init_def)
  have early: "fireTimer cfg0 3 (step cfg0 (Elapse 3000) burst) = step cfg0 (Elapse 3000) burst"
    using inst inv by (simp add: burst2_eval init_def FLUSH_INTERVAL_def c)
  have late: "sink (fireTimer cfg0 3 (step cfg0 (Elapse 5000) burst))
       = [Insert ''business_interactions''
            [[(''event_type'', JStr ''view'')], [(''event_type'', JStr ''call'')],
             [(''event_type'', JStr ''share'')]]]
     \<and> eventQueue (fireTimer cfg0 3 (step cfg0 (Elapse 5000) burst)) = []"
    by (simp add: fireTimer_def t q s flushEvents_def flushOperation_def flushVisitLogs_def
        safeAnalyticsOperation_def await_def sinkCall_def Let_def cfg0_def c)
  show ?thesis
    using en below inv t only s early late by (simp add: burst2_eval init_def)
qed

text \<open>
  C4. With analytics enabled and the client present, a flush run to its end (both
  awaited inserts resolved, whatever they resolve to) adds to the sink exactly one insert
  per table that has events in the batch: the interactions first, then the visit logs,
  each with the rows of its table in queue order. The number of calls added is the number
  of the two tables that occur in the batch, and nothing of the flush stays suspended.
  The witness is a batch of three interactions and two visits, interleaved: two calls.
\<close>

theorem flush_one_write_per_category:
  assumes "isAnalyticsEnabled cfg" and "analyticsClient cfg \<noteq> None"
  shows "sink (run cfg [Resume (length (pending s)) r1, Resume (length (pending s)) r2]
                 (flushEvents cfg s))
           = sink s
             @ (if filter (\<lambda>e. table e = ''business_interactions'') (eventQueue s) = [] then []
                else [Insert ''business_interactions''
                        (map data (filter (\<lambda>e. table e = ''business_interactions'') (eventQueue s)))])
             @ (if filter (\<lambda>e. table e = ''visit_logs'') (eventQueue s) = [] then []
                else [Insert ''visit_logs''
                        (map data (filter (\<lambda>e. table e = ''visit_logs'') (eventQueue s)))])
       \<and> length (sink (run cfg [Resume (length (pending s)) r1, Resume (length (pending s)) r2]
                        (flushEvents cfg s)))
           = length (sink s)
             + card ({''business_interactions'', ''visit_logs''} \<inter> table ` set (eventQueue s))
       \<and> pending (run cfg [Resume (length (pending s)) r1, Resume (length (pending s)) r2]
                    (flushEvents cfg s)) = pending s"
proof -
  have r: "run cfg [Resume (length (pending s)) r1, Resume (length (pending s)) r2]
      (flushEvents cfg s) = flushInFlight cfg [] r1 [] r2 s"
    by (simp add: flushInFlight_def enqueueAll_def Let_def)
  have "length ([]::queued list) + length ([]::queued list) < MAX_QUEUE_SIZE"
    by (simp add: MAX_QUEUE_SIZE_def)
  note e = flushInFlight_effect [OF assms this, of r1 r2 s]
  show ?thesis
    unfolding r using e by (simp add: groupedWrites_count) (simp add: groupedWrites_def Let_def)
qed

theorem flush_one_write_per_category_witness:
  "isAnalyticsEnabled cfg0 \<and> analyticsClient cfg0 \<noteq> None
   \<and> length (filter (\<lambda>e. table e = ''business_interactions'') (eventQueue mixedBatch)) = 3
   \<and> length (filter (\<lambda>e. table e = ''visit_logs'') (eventQueue mixedBatch)) = 2
   \<and> sink (run cfg0 [Resume 0 (Response None None), Resume 0 (Response None None)]
              (flushEvents cfg0 mixedBatch))
        = [Insert ''business_interactions''
             [[(''business_id'', JStr ''b1'')], [(''business_id'', JStr ''b2'')],
              [(''business_id'', JStr ''b3'')]],
           Insert ''visit_logs'' [[(''page_path'', JStr ''/a'')], [(''page_path'', JStr ''/b'')]]]"
proof -
  have en: "isAnalyticsEnabled cfg0" and cl: "analyticsClient cfg0 \<noteq> None"
    by (simp_all add: cfg0_def)
  have p: "length (pending mixedBatch) = 0"
    by (simp add: mixedBatch_eval init_def)
  note inst = flush_one_write_per_category [OF en cl, of mixedBatch "Response None None"
      "Response None None", unfolded p]
  have "sink (run cfg0 [Resume 0 (Response None None), Resume 0 (Response None None)]
              (flushEvents cfg0 mixedBatch))
        = [Insert ''business_interactions''
             [[(''business_id'', JStr ''b1'')], [(''business_id'', JStr ''b2'')],
              [(''business_id'', JStr ''b3'')]],
           Insert ''visit_logs'' [[(''page_path'', JStr ''/a'')], [(''page_path'', JStr ''/b'')]]]"
    using inst by (simp add: mixedBatch_eval init_def)
  then show ?thesis
    using en cl by (simp add: mixedBatch_eval init_def)
qed

text \<open>
  C5. \<^verbatim>\<open>sendPing\<close> makes no sink call and logs nothing when the tab is hidden, when
  more than \<open>MIN_ACTIVITY_GAP\<close> (10000) has passed since the last activity, or when
  analytics is disabled; called bare, as the interval closure does, it leaves the state
  as it was. When the three gates pass and the client is present it issues one upsert
  into \<^verbatim>\<open>live_users\<close>, on conflict \<^verbatim>\<open>device_id\<close>, with \<^verbatim>\<open>is_active = true\<close> and
  \<^verbatim>\<open>last_ping\<close> the current time.
\<close>

theorem ping_sent_only_when_visible_active_enabled:
  "(\<not> isTabActive s \<or> int (clock s) - int (lastActivity s) > 10000 \<or> \<not> isAnalyticsEnabled cfg
      \<longrightarrow> sendPing cfg deviceId userName None s = s
          \<and> sink (sendPing cfg deviceId userName caller s) = sink s
          \<and> console (sendPing cfg deviceId userName caller s) = console s)
   \<and> (isTabActive s \<and> int (clock s) - int (lastActivity s) \<le> 10000 \<and> isAnalyticsEnabled cfg
        \<and> analyticsClient cfg \<noteq> None
      \<longrightarrow> sink (sendPing cfg deviceId userName caller s)
            = sink s @ [Upsert ''live_users''
                          [(''device_id'', JStr deviceId),
                           (''user_name'', nullable userName),
                           (''is_active'', JBool True),
                           (''last_ping'', JTime (clock s))] ''device_id''])"
  by (auto simp: sendPing_def returnTo_def safeAnalyticsOperation_def await_def sinkCall_def
      MIN_ACTIVITY_GAP_def split: option.splits)

theorem ping_sent_only_when_visible_active_enabled_witness:
  "\<not> isTabActive hiddenTab
   \<and> sink (sendPing cfg0 ''d1'' None None hiddenTab) = []
   \<and> isTabActive idleTab \<and> int (clock idleTab) - int (lastActivity idleTab) > 10000
   \<and> sink (sendPing cfg0 ''d1'' None None idleTab) = []
   \<and> sink (sendPing cfgOff ''d1'' None None activeTab) = []
   \<and> sink (sendPing cfg0 ''d1'' (Some ''ann'') None activeTab)
        = [Upsert ''live_users''
             [(''device_id'', JStr ''d1''), (''user_name'', JStr ''ann''),
              (''is_active'', JBool True), (''last_ping'', JTime 10000)] ''device_id'']"
proof -
  have h: "\<not> isTabActive hiddenTab" "sink hiddenTab = []"
    by (simp_all add: hiddenTab_def init_def Let_def)
  have i: "isTabActive idleTab" "int (clock idleTab) - int (lastActivity idleTab) > 10000"
    "sink idleTab = []"
    by (simp_all add: idleTab_def init_def)
  have a: "isTabActive activeTab" "int (clock activeTab) - int (lastActivity activeTab) \<le> 10000"
    "sink activeTab = []" "clock activeTab = 10000"
    by (simp_all add: activeTab_def init_def)
  have c: "isAnalyticsEnabled cfg0" "analyticsClient cfg0 \<noteq> None" "\<not> isAnalyticsEnabled cfgOff"
    by (simp_all add: cfg0_def cfgOff_def)
  show ?thesis
    using ping_sent_only_when_visible_active_enabled [of hiddenTab cfg0 "''d1''" None None]
      ping_sent_only_when_visible_active_enabled [of idleTab cfg0 "''d1''" None None]
      ping_sent_only_when_visible_active_enabled [of activeTab cfgOff "''d1''" None None]
      ping_sent_only_when_visible_active_enabled [of activeTab cfg0 "''d1''" "Some ''ann''" None]
    by (simp add: h i a c nullable_def)
qed

text \<open>
  C6. In every state the event loop reaches at most one recurring ping schedule is live.
  The rest of a \<^verbatim>\<open>startLiveTracking\<close> call clears the interval whose handle
  \<^verbatim>\<open>pingInterval\<close> holds before it sets its own, so in a state satisfying the timer
  invariant the only ping schedule left is the new one; and two calls in succession,
  both run to their end, leave exactly one. The witness adds the next tick: of the two
  handles only the second fires, and one ping is sent.
\<close>

theorem one_recurring_ping_schedule:
  "length (filter isPingTimer (timers (run cfg es (init t0 ls)))) \<le> 1
   \<and> (timer_inv s \<longrightarrow>
        filter isPingTimer (timers (startLiveTracking_resume deviceId userName s))
          = [Timer (nextTimerId s) (clock s + PING_INTERVAL) (Some PING_INTERVAL)
               (PingClosure deviceId userName)])
   \<and> (isAnalyticsEnabled cfg \<and> timer_inv s \<longrightarrow>
        length (filter isPingTimer (timers (run cfg
          [StartLiveTracking, StartLiveTracking, Resume (length (pending s)) r,
           Resume (length (pending s)) r'] s))) = 1)"
proof (intro conjI impI)
  have "timer_inv (run cfg es (init t0 ls))"
    by (rule run_timer_inv) (rule init_timer_inv)
  then show "length (filter isPingTimer (timers (run cfg es (init t0 ls)))) \<le> 1"
    by (rule timer_inv_one_ping)
next
  assume "timer_inv s"
  then show "filter isPingTimer (timers (startLiveTracking_resume deviceId userName s))
      = [Timer (nextTimerId s) (clock s + PING_INTERVAL) (Some PING_INTERVAL)
           (PingClosure deviceId userName)]"
    by (rule only_ping_after_resume)
next
  assume "isAnalyticsEnabled cfg \<and> timer_inv s"
  then obtain t where "filter isPingTimer (timers (run cfg
      [StartLiveTracking, StartLiveTracking, Resume (length (pending s)) r,
       Resume (length (pending s)) r'] s)) = [t]"
    using two_calls_one_schedule [of cfg s r r'] by blast
  then show "length (filter isPingTimer (timers (run cfg
      [StartLiveTracking, StartLiveTracking, Resume (length (pending s)) r,
       Resume (length (pending s)) r'] s))) = 1"
    by simp
qed

theorem one_recurring_ping_schedule_witness:
  "isAnalyticsEnabled cfg0 \<and> timer_inv (init 0 [(''jawala_device_id'', ''d1'')])
   \<and> filter isPingTimer
        (timers (startLiveTracking_resume ''d1'' None (init 0 [(''jawala_device_id'', ''d1'')])))
       = [Timer 1 20000 (Some 20000) (PingClosure ''d1'' None)]
   \<and> timers twoCalls = [Timer 2 20000 (Some 20000) (PingClosure ''d1'' None)]
   \<and> length (filter isPingTimer (timers twoCalls)) = 1
   \<and> length (sink twoCalls) = 2
   \<and> length (sink (run cfg0 [Elapse 20000, Activity, FireTimer 1, FireTimer 2] twoCalls)) = 3"
proof -
  let ?s0 = "init 0 [(''jawala_device_id'', ''d1'')]"
  have en: "isAnalyticsEnabled cfg0"
    by (simp add: cfg0_def)
  have inv: "timer_inv ?s0"
    by (rule init_timer_inv)
  have p: "length (pending ?s0) = 0"
    by (simp add: init_def)
  note inst = one_recurring_ping_schedule [of cfg0 "[]" 0 "[]" ?s0 "''d1''" None ok ok]
  from inst en inv
  have "length (filter isPingTimer (timers (run cfg0
          [StartLiveTracking, StartLiveTracking, Resume (length (pending ?s0)) ok,
           Resume (length (pending ?s0)) ok] ?s0))) = 1"
    by blast
  then have one: "length (filter isPingTimer (timers twoCalls)) = 1"
    by (simp only: p twoCalls_def)
  from inst inv
  have "filter isPingTimer (timers (startLiveTracking_resume ''d1'' None ?s0))
      = [Timer (nextTimerId ?s0) (clock ?s0 + PING_INTERVAL) (Some PING_INTERVAL)
           (PingClosure ''d1'' None)]"
    by blast
  then have first: "filter isPingTimer (timers (startLiveTracking_resume ''d1'' None ?s0))
      = [Timer 1 20000 (Some 20000) (PingClosure ''d1'' None)]"
    by (simp add: init_def PING_INTERVAL_def)
  have tick: "length (sink (run cfg0 [Elapse 20000, Activity, FireTimer 1, FireTimer 2] twoCalls)) = 3"
    by (simp add: twoCalls_eval ping_defs)
  show ?thesis
    using en inv one first tick by (simp add: twoCalls_eval init_def)
qed

text \<open>
  C7. With the enable flag false, \<^verbatim>\<open>queueEvent\<close>, \<^verbatim>\<open>sendPing\<close> (as the interval
  closure calls it) and \<^verbatim>\<open>startLiveTracking\<close> return the state they were given: no
  sink call, no timer, the queue and both handles untouched; \<^verbatim>\<open>sendPing\<close> with a caller
  waiting for it leaves the sink, the timers, the queue and both handles as they were.
  \<^verbatim>\<open>trackUserVisit\<close> does exactly \<^verbatim>\<open>setUserName\<close>, so the name is stored and read
  back, and \<^verbatim>\<open>getDeviceId\<close> does not look at the flag.
\<close>

theorem disabled_only_saves_name:
  assumes "\<not> isAnalyticsEnabled cfg"
  shows "queueEvent cfg tbl dat s = s
       \<and> sendPing cfg deviceId userName None s = s
       \<and> startLiveTracking cfg s = s
       \<and> sink (sendPing cfg deviceId userName caller s) = sink s
       \<and> timers (sendPing cfg deviceId userName caller s) = timers s
       \<and> eventQueue (sendPing cfg deviceId userName caller s) = eventQueue s
       \<and> flushTimeout (sendPing cfg deviceId userName caller s) = flushTimeout s
       \<and> pingInterval (sendPing cfg deviceId userName caller s) = pingInterval s
       \<and> trackUserVisit cfg name s = setUserName name s
       \<and> getUserName (trackUserVisit cfg name s) = Some name
       \<and> sink (trackUserVisit cfg name s) = sink s
       \<and> timers (trackUserVisit cfg name s) = timers s
       \<and> getDeviceId cfg s = getDeviceId (cfg\<lparr>isAnalyticsEnabled := True\<rparr>) s"
proof -
  have a: "queueEvent cfg tbl dat s = s" "sendPing cfg deviceId userName None s = s"
    "startLiveTracking cfg s = s" "trackUserVisit cfg name s = setUserName name s"
    using assms
    by (simp_all add: queueEvent_def startLiveTracking_def sendPing_def returnTo_def
        trackUserVisit_def)
  have b: "sink (sendPing cfg deviceId userName caller s) = sink s"
    using assms by (simp add: sendPing_def returnTo_def await_def split: option.splits)
  have c: "getUserName (setUserName name s) = Some name"
    by (simp add: setUserName_def getUserName_def getItem_def setItem_def update_Some_unfold)
  have d: "getDeviceId cfg s = getDeviceId (cfg\<lparr>isAnalyticsEnabled := True\<rparr>) s"
    by (simp add: getDeviceId_def Let_def)
  show ?thesis
    using b c d by (simp add: a)
qed

theorem disabled_only_saves_name_witness:
  "\<not> isAnalyticsEnabled cfgOff
   \<and> queueEvent cfgOff ''visit_logs'' [] (init 0 []) = init 0 []
   \<and> startLiveTracking cfgOff (init 0 []) = init 0 []
   \<and> trackUserVisit cfgOff ''ann'' (init 0 [])
        = (init 0 [])\<lparr>localStorage := [(''jawala_user_name'', ''ann'')]\<rparr>"
proof -
  have off: "\<not> isAnalyticsEnabled cfgOff"
    by (simp add: cfgOff_def)
  note inst = disabled_only_saves_name [OF off, of "''visit_logs''" "[]" "init 0 []" "''d''"
      None None "''ann''"]
  have "setUserName ''ann'' (init 0 [])
      = (init 0 [])\<lparr>localStorage := [(''jawala_user_name'', ''ann'')]\<rparr>"
    by (simp add: setUserName_def setItem_def USER_NAME_KEY_def init_def)
  with inst off show ?thesis
    by simp
qed

text \<open>
  C8, as stated, fails: when the enqueue reaches the maximum the flush runs and the timer
  is not rescheduled. With nine events queued and the timer set at time 0 still due at
  5000, an enqueue at time 1000 flushes the ten events and leaves that timer and the
  next handle as they were; a reschedule would have made timer 10, due at 6000.
\<close>

theorem no_reschedule_at_size_trigger_counterexample:
  "isAnalyticsEnabled cfg0
   \<and> MAX_QUEUE_SIZE \<le> length (eventQueue (step cfg0 (Elapse 1000) nineQueued)) + 1
   \<and> timers (step cfg0 (Elapse 1000) nineQueued) = [Timer 9 5000 None FlushEvents]
   \<and> timers (queueEvent cfg0 ''visit_logs'' [] (step cfg0 (Elapse 1000) nineQueued))
        = [Timer 9 5000 None FlushEvents]
   \<and> nextTimerId (queueEvent cfg0 ''visit_logs'' [] (step cfg0 (Elapse 1000) nineQueued)) = 10
   \<and> sink (queueEvent cfg0 ''visit_logs'' [] (step cfg0 (Elapse 1000) nineQueued))
        = [Insert ''visit_logs'' (replicate 10 [])]"
  by (simp add: nineQueued_eval eval_defs numeral_eq_Suc)

text \<open>
  C8, amended. With analytics enabled every enqueue does exactly one of the two: when the
  queue reaches \<open>MAX_QUEUE_SIZE\<close> it flushes and leaves the timers, the stored handle and
  the next handle untouched; otherwise it reschedules the flush timer and makes no sink
  call.
\<close>

theorem enqueue_flushes_or_reschedules:
  assumes "isAnalyticsEnabled cfg"
  shows "(MAX_QUEUE_SIZE \<le> length (eventQueue s) + 1 \<longrightarrow>
            queueEvent cfg tbl dat s
              = flushEvents cfg (s\<lparr>eventQueue := eventQueue s @ [Queued tbl dat]\<rparr>)
            \<and> timers (queueEvent cfg tbl dat s) = timers s
            \<and> flushTimeout (queueEvent cfg tbl dat s) = flushTimeout s
            \<and> nextTimerId (queueEvent cfg tbl dat s) = nextTimerId s)
       \<and> (length (eventQueue s) + 1 < MAX_QUEUE_SIZE \<longrightarrow>
            queueEvent cfg tbl dat s
              = scheduleFlush (s\<lparr>eventQueue := eventQueue s @ [Queued tbl dat]\<rparr>)
            \<and> eventQueue (queueEvent cfg tbl dat s) = eventQueue s @ [Queued tbl dat]
            \<and> sink (queueEvent cfg tbl dat s) = sink s
            \<and> pending (queueEvent cfg tbl dat s) = pending s)"
  using assms by (simp add: queueEvent_def Let_def)

theorem enqueue_flushes_or_reschedules_witness:
  "isAnalyticsEnabled cfg0
   \<and> MAX_QUEUE_SIZE \<le> length (eventQueue nineQueued) + 1
   \<and> timers (queueEvent cfg0 ''visit_logs'' [] nineQueued) = timers nineQueued
   \<and> length (eventQueue (init 0 [])) + 1 < MAX_QUEUE_SIZE
   \<and> sink (queueEvent cfg0 ''visit_logs'' [] (init 0 [])) = []
   \<and> eventQueue (queueEvent cfg0 ''visit_logs'' [] (init 0 [])) = [Queued ''visit_logs'' []]"
proof -
  have en: "isAnalyticsEnabled cfg0"
    by (simp add: cfg0_def)
  have full: "MAX_QUEUE_SIZE \<le> length (eventQueue nineQueued) + 1"
    by (simp add: nineQueued_eval init_def MAX_QUEUE_SIZE_def)
  have low: "length (eventQueue (init 0 [])) + 1 < MAX_QUEUE_SIZE"
    by (simp add: init_def MAX_QUEUE_SIZE_def)
  from enqueue_flushes_or_reschedules [OF en, of nineQueued "''visit_logs''" "[]"] full
  have a: "timers (queueEvent cfg0 ''visit_logs'' [] nineQueued) = timers nineQueued"
    by blast
  from enqueue_flushes_or_reschedules [OF en, of "init 0 []" "''visit_logs''" "[]"] low
  have b: "sink (queueEvent cfg0 ''visit_logs'' [] (init 0 [])) = sink (init 0 [])
      \<and> eventQueue (queueEvent cfg0 ''visit_logs'' [] (init 0 []))
          = eventQueue (init 0 []) @ [Queued ''visit_logs'' []]"
    by blast
  show ?thesis
    using en full low a b by (simp add: init_def)
qed

text \<open>
  C9. \<^verbatim>\<open>startLiveTracking\<close> suspends with the device id and user name it read when it
  was called; whenever it resumes, also after a \<^verbatim>\<open>setUserName\<close> in between, the
  schedule it sets holds those two values. \<^verbatim>\<open>setUserName\<close> leaves the timers as they
  are, and a tick of a schedule holding \<open>d\<close> and \<open>u\<close> that passes the gates upserts
  \<open>d\<close> and \<open>u\<close>, whatever name has been stored since.
\<close>

theorem ping_schedule_keeps_call_identity:
  assumes "isAnalyticsEnabled cfg" and "analyticsClient cfg \<noteq> None"
  shows "(\<exists>k. pending (startLiveTracking cfg s) = pending s @ [k]
            \<and> (\<forall>r s''. timer_inv s'' \<longrightarrow>
                  filter isPingTimer (timers (resumeTask cfg k r (setUserName name s'')))
                    = [Timer (nextTimerId s'') (clock s'' + PING_INTERVAL) (Some PING_INTERVAL)
                         (PingClosure (fst (getDeviceId cfg s))
                            (getUserName (snd (getDeviceId cfg s))))]))
       \<and> timers (setUserName name s') = timers s'
       \<and> (find (\<lambda>t. timer_id t = h) (timers s') = Some (Timer h dd p (PingClosure d u))
            \<and> dd \<le> clock s' \<and> isTabActive s'
            \<and> int (clock s') - int (lastActivity s') \<le> MIN_ACTIVITY_GAP \<longrightarrow>
          sink (fireTimer cfg h (setUserName name s'))
            = sink s' @ [Upsert ''live_users''
                           [(''device_id'', JStr d), (''user_name'', nullable u),
                            (''is_active'', JBool True), (''last_ping'', JTime (clock s'))]
                           ''device_id''])"
proof (intro conjI impI)
  let ?d = "fst (getDeviceId cfg s)" and ?u = "getUserName (snd (getDeviceId cfg s))"
  obtain k where k: "liveTask ?d ?u k" "pending (startLiveTracking cfg s) = pending s @ [k]"
    using startLiveTracking_pending [OF assms(1), of s] by blast
  have "filter isPingTimer (timers (resumeTask cfg k r (setUserName name s'')))
      = [Timer (nextTimerId s'') (clock s'' + PING_INTERVAL) (Some PING_INTERVAL)
           (PingClosure ?d ?u)]" if "timer_inv s''" for r s''
  proof -
    have "timer_inv (setUserName name s'')"
      using that by (simp add: timer_inv_def)
    from only_ping_after_resume [OF this, of ?d ?u] show ?thesis
      by (simp add: resume_liveTask(1) [OF k(1)])
  qed
  with k(2) show "\<exists>k. pending (startLiveTracking cfg s) = pending s @ [k]
      \<and> (\<forall>r s''. timer_inv s'' \<longrightarrow>
            filter isPingTimer (timers (resumeTask cfg k r (setUserName name s'')))
              = [Timer (nextTimerId s'') (clock s'' + PING_INTERVAL) (Some PING_INTERVAL)
                   (PingClosure ?d ?u)])"
    by blast
next
  show "timers (setUserName name s') = timers s'"
    by simp
next
  assume a: "find (\<lambda>t. timer_id t = h) (timers s') = Some (Timer h dd p (PingClosure d u))
      \<and> dd \<le> clock s' \<and> isTabActive s'
      \<and> int (clock s') - int (lastActivity s') \<le> MIN_ACTIVITY_GAP"
  from fireTimer_ping [of h "setUserName name s'" dd p d u cfg] a assms
  show "sink (fireTimer cfg h (setUserName name s'))
      = sink s' @ [Upsert ''live_users''
                     [(''device_id'', JStr d), (''user_name'', nullable u),
                      (''is_active'', JBool True), (''last_ping'', JTime (clock s'))]
                     ''device_id'']"
    by simp
qed

theorem ping_schedule_keeps_call_identity_witness:
  "isAnalyticsEnabled cfg0 \<and> analyticsClient cfg0 \<noteq> None
   \<and> getUserName tracking = Some ''bob''
   \<and> filter isPingTimer (timers tracking)
       = [Timer 1 20000 (Some 20000) (PingClosure ''d1'' (Some ''ann''))]
   \<and> sink (run cfg0 [SetUserName ''carol'', FireTimer 1] tick)
       = sink tracking
         @ [Upsert ''live_users''
              [(''device_id'', JStr ''d1''), (''user_name'', JStr ''ann''),
               (''is_active'', JBool True), (''last_ping'', JTime 20000)] ''device_id'']"
proof -
  let ?s0 = "init 0 [(''jawala_device_id'', ''d1''), (''jawala_user_name'', ''ann'')]"
  let ?s1 = "startLiveTracking cfg0 ?s0"
  have en: "isAnalyticsEnabled cfg0" and cl: "analyticsClient cfg0 \<noteq> None"
    by (simp_all add: cfg0_def)
  have t: "timers tick = [Timer 1 20000 (Some 20000) (PingClosure ''d1'' (Some ''ann''))]"
    "clock tick = 20000" "lastActivity tick = 20000" "isTabActive tick" "sink tick = sink tracking"
    by (simp_all add: tick_def tracking_eval init_def)
  have pre: "find (\<lambda>t. timer_id t = 1) (timers tick)
        = Some (Timer 1 20000 (Some 20000) (PingClosure ''d1'' (Some ''ann'')))
      \<and> 20000 \<le> clock tick \<and> isTabActive tick
      \<and> int (clock tick) - int (lastActivity tick) \<le> MIN_ACTIVITY_GAP"
    by (simp add: t MIN_ACTIVITY_GAP_def)
  note inst = ping_schedule_keeps_call_identity [OF en cl, of ?s0 "''carol''" tick 1 20000
      "Some 20000" "''d1''" "Some ''ann''"]
  from inst pre
  have "sink (fireTimer cfg0 1 (setUserName ''carol'' tick))
      = sink tick @ [Upsert ''live_users''
                     [(''device_id'', JStr ''d1''), (''user_name'', nullable (Some ''ann'')),
                      (''is_active'', JBool True), (''last_ping'', JTime (clock tick))]
                     ''device_id'']"
    by blast
  then have fired: "sink (run cfg0 [SetUserName ''carol'', FireTimer 1] tick)
       = sink tracking
         @ [Upsert ''live_users''
              [(''device_id'', JStr ''d1''), (''user_name'', JStr ''ann''),
               (''is_active'', JBool True), (''last_ping'', JTime 20000)] ''device_id'']"
    by (simp add: t nullable_def)
  note inst' = ping_schedule_keeps_call_identity [OF en cl, of ?s0 "''bob''" tick 1 20000
      "Some 20000" "''d1''" "Some ''ann''"]
  from inst' obtain k where k: "pending ?s1 = pending ?s0 @ [k]"
    and r: "\<forall>r s''. timer_inv s'' \<longrightarrow>
        filter isPingTimer (timers (resumeTask cfg0 k r (setUserName ''bob'' s'')))
          = [Timer (nextTimerId s'') (clock s'' + PING_INTERVAL) (Some PING_INTERVAL)
               (PingClosure (fst (getDeviceId cfg0 ?s0)) (getUserName (snd (getDeviceId cfg0 ?s0))))]"
    by blast
  have id: "fst (getDeviceId cfg0 ?s0) = ''d1''" "getUserName (snd (getDeviceId cfg0 ?s0)) = Some ''ann''"
    by (simp_all add: ping_defs)
  have inv: "timer_inv (?s1\<lparr>pending := []\<rparr>)"
    by (simp add: timer_inv_def init_def)
  have p0: "pending ?s0 = []"
    by (simp add: init_def)
  have sw: "(setUserName ''bob'' ?s1)\<lparr>pending := []\<rparr> = setUserName ''bob'' (?s1\<lparr>pending := []\<rparr>)"
    by (rule setUserName_pending)
  have tr: "tracking = resumeTask cfg0 k ok (setUserName ''bob'' (?s1\<lparr>pending := []\<rparr>))"
    by (simp add: tracking_def k p0 sw [symmetric])
  from r inv
  have "filter isPingTimer (timers (resumeTask cfg0 k ok (setUserName ''bob'' (?s1\<lparr>pending := []\<rparr>))))
      = [Timer (nextTimerId (?s1\<lparr>pending := []\<rparr>))
           (clock (?s1\<lparr>pending := []\<rparr>) + PING_INTERVAL) (Some PING_INTERVAL)
           (PingClosure (fst (getDeviceId cfg0 ?s0)) (getUserName (snd (getDeviceId cfg0 ?s0))))]"
    by blast
  then have "filter isPingTimer (timers tracking)
      = [Timer (nextTimerId (?s1\<lparr>pending := []\<rparr>))
           (clock (?s1\<lparr>pending := []\<rparr>) + PING_INTERVAL) (Some PING_INTERVAL)
           (PingClosure ''d1'' (Some ''ann''))]"
    by (simp only: tr [symmetric] id)
  moreover have "nextTimerId (?s1\<lparr>pending := []\<rparr>) = 1" "clock (?s1\<lparr>pending := []\<rparr>) = 0"
    by (simp_all add: init_def)
  ultimately have sched: "filter isPingTimer (timers tracking)
       = [Timer 1 20000 (Some 20000) (PingClosure ''d1'' (Some ''ann''))]"
    by (simp add: PING_INTERVAL_def)
  have "getUserName tracking = Some ''bob''"
    by (simp add: tracking_eval init_def getUserName_def getItem_def USER_NAME_KEY_def)
  with en cl sched fired show ?thesis
    by blast
qed

text \<open>
  C10. With analytics enabled and the client present, every \<^verbatim>\<open>startLiveTracking\<close> call
  that runs to its end appends one teardown closure; no turn of the event loop removes
  one; \<^verbatim>\<open>beforeunload\<close> sends one \<^verbatim>\<open>is_active = false\<close> beacon per registered closure;
  so after \<open>n\<close> calls from the loaded module the unload sends \<open>n\<close> beacons.
\<close>

theorem every_call_adds_unload_listener:
  assumes "isAnalyticsEnabled cfg" and "analyticsClient cfg \<noteq> None"
  shows "(\<exists>k. pending (startLiveTracking cfg s) = pending s @ [k]
            \<and> (\<forall>r s''. unloadListeners (resumeTask cfg k r s'')
                  = unloadListeners s'' @ [(fst (getDeviceId cfg s),
                                             getUserName (snd (getDeviceId cfg s)))]))
       \<and> take (length (unloadListeners s)) (unloadListeners (step cfg e s)) = unloadListeners s
       \<and> sink (step cfg BeforeUnload s)
           = sink (flushEvents cfg s)
             @ map (\<lambda>c. Beacon (the (analyticsClient cfg) @ ''/rest/v1/live_users'')
                          [(''device_id'', JStr (fst c)), (''user_name'', nullable (snd c)),
                           (''is_active'', JBool False), (''last_ping'', JTime (clock s))])
                 (unloadListeners s)
       \<and> length (filter isBeacon
            (sink (run cfg (liveCalls n r @ [BeforeUnload]) (init t0 ls)))) = n"
proof (intro conjI)
  let ?d = "fst (getDeviceId cfg s)" and ?u = "getUserName (snd (getDeviceId cfg s))"
  obtain k where k: "liveTask ?d ?u k" "pending (startLiveTracking cfg s) = pending s @ [k]"
    using startLiveTracking_pending [OF assms(1), of s] by blast
  have "unloadListeners (resumeTask cfg k r s'') = unloadListeners s'' @ [(?d, ?u)]" for r s''
    by (rule resume_liveTask(9) [OF k(1)])
  with k(2) show "\<exists>k. pending (startLiveTracking cfg s) = pending s @ [k]
      \<and> (\<forall>r s''. unloadListeners (resumeTask cfg k r s'') = unloadListeners s'' @ [(?d, ?u)])"
    by blast
next
  obtain xs where "unloadListeners (step cfg e s) = unloadListeners s @ xs"
    using step_listeners by blast
  then show "take (length (unloadListeners s)) (unloadListeners (step cfg e s)) = unloadListeners s"
    by simp
next
  show "sink (step cfg BeforeUnload s)
      = sink (flushEvents cfg s)
        @ map (\<lambda>c. Beacon (the (analyticsClient cfg) @ ''/rest/v1/live_users'')
                     [(''device_id'', JStr (fst c)), (''user_name'', nullable (snd c)),
                      (''is_active'', JBool False), (''last_ping'', JTime (clock s))])
            (unloadListeners s)"
    by (simp add: fold_unloadClosure_sink [OF assms])
next
  let ?s = "run cfg (liveCalls n r) (init t0 ls)"
  have p: "pending (init t0 ls) = []"
    by (simp add: init_def)
  note c = live_calls [OF assms(1) p, of n r]
  have "length (filter isBeacon (sink (step cfg BeforeUnload ?s)))
      = length (filter isBeacon (sink ?s)) + length (unloadListeners ?s)"
    by (rule unload_beacons [OF assms])
  also have "\<dots> = n"
    using c by (simp add: init_def)
  finally show "length (filter isBeacon
      (sink (run cfg (liveCalls n r @ [BeforeUnload]) (init t0 ls)))) = n"
    by (simp add: run_append)
qed

theorem every_call_adds_unload_listener_witness:
  "isAnalyticsEnabled cfg0 \<and> analyticsClient cfg0 \<noteq> None
   \<and> unloadListeners twoCalls = [(''d1'', None), (''d1'', None)]
   \<and> filter isBeacon (sink (step cfg0 BeforeUnload twoCalls))
       = [Beacon ''https://sink.example/rest/v1/live_users''
            [(''device_id'', JStr ''d1''), (''user_name'', JNull),
             (''is_active'', JBool False), (''last_ping'', JTime 0)],
          Beacon ''https://sink.example/rest/v1/live_users''
            [(''device_id'', JStr ''d1''), (''user_name'', JNull),
             (''is_active'', JBool False), (''last_ping'', JTime 0)]]
   \<and> length (filter isBeacon
        (sink (run cfg0 (liveCalls 3 ok @ [BeforeUnload]) (init 0 [])))) = 3"
proof -
  have en: "isAnalyticsEnabled cfg0" and cl: "analyticsClient cfg0 \<noteq> None"
    by (simp_all add: cfg0_def)
  note inst = every_call_adds_unload_listener [OF en cl, of twoCalls Activity 3 ok 0 "[]"]
  from inst have u: "sink (step cfg0 BeforeUnload twoCalls)
      = sink (flushEvents cfg0 twoCalls)
        @ map (\<lambda>c. Beacon (the (analyticsClient cfg0) @ ''/rest/v1/live_users'')
                     [(''device_id'', JStr (fst c)), (''user_name'', nullable (snd c)),
                      (''is_active'', JBool False), (''last_ping'', JTime (clock twoCalls))])
            (unloadListeners twoCalls)"
    by blast
  have f: "flushEvents cfg0 twoCalls = twoCalls"
    by (simp add: flushEvents_def twoCalls_eval init_def)
  have b: "filter isBeacon (sink (step cfg0 BeforeUnload twoCalls))
       = [Beacon ''https://sink.example/rest/v1/live_users''
            [(''device_id'', JStr ''d1''), (''user_name'', JNull),
             (''is_active'', JBool False), (''last_ping'', JTime 0)],
          Beacon ''https://sink.example/rest/v1/live_users''
            [(''device_id'', JStr ''d1''), (''user_name'', JNull),
             (''is_active'', JBool False), (''last_ping'', JTime 0)]]"
    unfolding u f by (simp add: twoCalls_eval init_def cfg0_def nullable_def)
  from inst have three: "length (filter isBeacon
        (sink (run cfg0 (liveCalls 3 ok @ [BeforeUnload]) (init 0 [])))) = 3"
    by blast
  have l: "unloadListeners twoCalls = [(''d1'', None), (''d1'', None)]"
    by (simp add: twoCalls_eval init_def)
  show ?thesis
    using en cl l b three by blast
qed

end
